theory Spec2Isabelle
  imports Main
begin

section \<open>Configuration\<close>

text \<open>
  The module-level constants of \<^verbatim>\<open>download_dropout.py\<close>. Durations are kept in
  milliseconds, so that \<^verbatim>\<open>REQUEST_DELAY = 2.5\<close> seconds is the number 2500 and
  \<^verbatim>\<open>REQUEST_DELAY * 2\<close> is 5000.
\<close>

definition BASE_URL :: string where
  "BASE_URL = ''https://watch.dropout.tv''"

definition SERIES_INDEX :: string where
  "SERIES_INDEX = BASE_URL @ ''/series''"

definition OUTPUT_FILE :: string where
  "OUTPUT_FILE = ''urls.txt''"

definition COOKIES_FILE :: string where
  "COOKIES_FILE = ''config/cookies.txt''"

definition ARCHIVE_FILE :: string where
  "ARCHIVE_FILE = ''config/archive.txt''"

definition REQUEST_DELAY :: nat where
  "REQUEST_DELAY = 2500"

section \<open>Decimal rendering of numbers in f-strings\<close>

definition digit_char :: "nat \<Rightarrow> char" where
  "digit_char d = char_of (48 + d)"

function show_nat :: "nat \<Rightarrow> string" where
  "show_nat n = (if n < 10 then [digit_char n] else show_nat (n div 10) @ [digit_char (n mod 10)])"
  by pat_completeness auto
termination
  by (relation "measure id") auto

declare show_nat.simps [simp del]

definition show_int :: "int \<Rightarrow> string" where
  "show_int i = (if i < 0 then ''-'' @ show_nat (nat (- i)) else show_nat (nat i))"

section \<open>Data\<close>

text \<open>
  A series entry is the dictionary \<^verbatim>\<open>{"title": ..., "url": ...}\<close> built by
  \<^verbatim>\<open>get_series_from_page\<close>.
\<close>

record series =
  title :: string
  url :: string

text \<open>
  The HTML parser is a library. A response therefore carries, besides its status code,
  what the two selector queries of the program return on its body:
  \<^item> \<open>series_items\<close>: one entry per element matched by
    \<^verbatim>\<open>li.js-collection-item.item-type-series\<close>, with the \<^verbatim>\<open>href\<close> of its first
    \<^verbatim>\<open>a.browse-item-link[href]\<close> descendant (if any) and the stripped text of its first
    \<^verbatim>\<open>.browse-item-title strong\<close> descendant (if any);
  \<^item> \<open>episode_hrefs\<close>: the \<^verbatim>\<open>href\<close> of every \<^verbatim>\<open>a.browse-item-link[href]\<close> of the
    document, in document order.
\<close>

record item =
  link_href :: "string option"
  title_text :: "string option"

record response =
  status_code :: nat
  series_items :: "item list"
  episode_hrefs :: "string list"

text \<open>
  What one call of \<^verbatim>\<open>session.get(url, timeout=TIMEOUT)\<close> does: it returns a response,
  raises a \<^verbatim>\<open>RequestException\<close> that is not an \<^verbatim>\<open>HTTPError\<close> (connection error,
  timeout, invalid URL; the string is the exception's message), or is interrupted by
  the user (\<^verbatim>\<open>KeyboardInterrupt\<close>). The program spends its time in requests and in the
  sleeps between them, and nothing on the way treats an interrupt of a sleep differently
  from an interrupt of a request; the model has the interrupt at the request.
\<close>

datatype outcome = Response response | NetworkError string | Interrupt

text \<open>
  What one call of \<^verbatim>\<open>subprocess.run(command, check=True)\<close> does: the child process runs
  and exits with a status (\<^verbatim>\<open>CalledProcessError\<close> is raised from a status other than 0),
  the program cannot be started and an \<^verbatim>\<open>OSError\<close> is raised (for instance
  \<^verbatim>\<open>PermissionError\<close> for a file that is not executable; the string is the message), or
  the user interrupts the wait (\<^verbatim>\<open>KeyboardInterrupt\<close>).
\<close>

datatype run_outcome = Exited int | SpawnError string | RunInterrupt

datatype exn = KeyboardInterrupt | FileNotFoundError string | OSError string | SystemExit nat

datatype event =
    Get string
  | Sleep nat
  | Print string
  | Makedirs string
  | Run "string list"

text \<open>
  The state threaded through the program: the events so far (oldest first) and the
  content of the output file \<^verbatim>\<open>urls.txt\<close>.
\<close>

record state =
  trace :: "event list"
  outfile :: string

text \<open>
  The world outside the program. \<open>session_get u n\<close> is the outcome of requesting \<open>u\<close>
  when \<open>n\<close> requests have been made before; \<open>path_exists p n\<close> is
  \<^verbatim>\<open>os.path.exists(p)\<close> at that moment. \<open>argv\<close> is the command line after the script
  name, and \<open>parser_parse_args d args\<close> is what the \<^verbatim>\<open>argparse\<close> parser declared in
  \<^verbatim>\<open>parse_args\<close> (one option \<^verbatim>\<open>-o/--output-dir\<close> with default \<open>d\<close>, and the built-in
  \<^verbatim>\<open>-h/--help\<close>) makes of the arguments: the value of \<^verbatim>\<open>output_dir\<close>, or the
  \<^verbatim>\<open>SystemExit\<close> it raises itself (status 0 after printing the help, status 2 after a
  usage error). The other fields are the library and operating-system functions the
  program calls.
\<close>

record env =
  argv :: "string list"
  parser_parse_args :: "string \<Rightarrow> string list \<Rightarrow> exn + string"
  session_get :: "string \<Rightarrow> nat \<Rightarrow> outcome"
  path_exists :: "string \<Rightarrow> nat \<Rightarrow> bool"
  os_name :: string
  which :: "string \<Rightarrow> string option"
  isfile :: "string \<Rightarrow> bool"
  abspath :: "string \<Rightarrow> string"
  isabs :: "string \<Rightarrow> bool"
  expand :: "string \<Rightarrow> string"
  path_join :: "string \<Rightarrow> string \<Rightarrow> string"
  script_dir :: string
  urljoin :: "string \<Rightarrow> string \<Rightarrow> string"
  subprocess_run :: "string list \<Rightarrow> run_outcome"

type_synonym 'a result = "((exn + 'a) \<times> state) option"

fun requested :: "event list \<Rightarrow> string list" where
  "requested [] = []"
| "requested (Get u # es) = u # requested es"
| "requested (e # es) = requested es"

definition clock :: "state \<Rightarrow> nat" where
  "clock st = length (requested (trace st))"

definition emit :: "event \<Rightarrow> state \<Rightarrow> state" where
  "emit e st = st\<lparr>trace := trace st @ [e]\<rparr>"

section \<open>The fetch loop\<close>

text \<open>\<^verbatim>\<open>response.raise_for_status()\<close> raises \<^verbatim>\<open>HTTPError\<close> for a status in 400..599.\<close>

definition raises_HTTPError :: "response \<Rightarrow> bool" where
  "raises_HTTPError r = (400 \<le> status_code r \<and> status_code r < 600)"

definition retry_slowly :: "string \<Rightarrow> state \<Rightarrow> state" where
  "retry_slowly message st = emit (Sleep (REQUEST_DELAY * 2)) (emit (Print message) st)"

partial_function (option) blocking_get :: "env \<Rightarrow> string \<Rightarrow> bool \<Rightarrow> state \<Rightarrow> response result" where
  "blocking_get e u allow_400_stop st =
    (let st1 = emit (Get u) (emit (Print (''[GET] '' @ u)) st) in
     case session_get e u (clock st) of
       Interrupt \<Rightarrow> Some (Inl KeyboardInterrupt, st1)
     | NetworkError m \<Rightarrow>
         blocking_get e u allow_400_stop
           (retry_slowly (''Network error ('' @ m @ ''), retrying slowly...'') st1)
     | Response r \<Rightarrow>
         if allow_400_stop \<and> status_code r = 400 then Some (Inr r, st1)
         else if raises_HTTPError r then
           (if allow_400_stop \<and> status_code r = 400 then Some (Inr r, st1)
            else blocking_get e u allow_400_stop
                   (retry_slowly (''HTTP '' @ show_nat (status_code r) @ '' error, retrying slowly...'') st1))
         else Some (Inr r, emit (Sleep REQUEST_DELAY) st1))"

declare blocking_get.simps [code]

section \<open>The series index\<close>

definition index_url :: "nat \<Rightarrow> string" where
  "index_url page_num =
    (if page_num = 1 then SERIES_INDEX else SERIES_INDEX @ ''?page='' @ show_nat page_num)"

text \<open>
  The loop over the matched items: an item without a link is skipped, a missing title
  becomes \<^verbatim>\<open>"Unknown"\<close>.
\<close>

fun collect_series :: "item list \<Rightarrow> series list" where
  "collect_series [] = []"
| "collect_series (i # items) =
    (case link_href i of
       None \<Rightarrow> collect_series items
     | Some href \<Rightarrow>
         \<lparr>title = (case title_text i of Some t \<Rightarrow> t | None \<Rightarrow> ''Unknown''), url = href\<rparr>
           # collect_series items)"

definition get_series_from_page :: "env \<Rightarrow> nat \<Rightarrow> state \<Rightarrow> series list option result" where
  "get_series_from_page e page_num st =
    (case blocking_get e (index_url page_num) True st of
       None \<Rightarrow> None
     | Some (Inl x, st1) \<Rightarrow> Some (Inl x, st1)
     | Some (Inr r, st1) \<Rightarrow>
         if status_code r = 400 then Some (Inr None, st1)
         else Some (Inr (Some (collect_series (series_items r))), st1))"

text \<open>The inner loop of \<^verbatim>\<open>scrape_all_series\<close>: one batch merged into the list and the set.\<close>

fun merge_batch :: "series list \<Rightarrow> series list \<times> string set \<Rightarrow> series list \<times> string set" where
  "merge_batch [] acc = acc"
| "merge_batch (s # batch) (all_series, seen) =
    (if url s \<notin> seen then merge_batch batch (all_series @ [s], insert (url s) seen)
     else merge_batch batch (all_series, seen))"

partial_function (option) index_loop ::
  "env \<Rightarrow> nat \<Rightarrow> series list \<Rightarrow> string set \<Rightarrow> state \<Rightarrow> series list result" where
  "index_loop e page all_series seen st =
    (case get_series_from_page e page st of
       None \<Rightarrow> None
     | Some (Inl x, st1) \<Rightarrow> Some (Inl x, st1)
     | Some (Inr None, st1) \<Rightarrow> Some (Inr all_series, st1)
     | Some (Inr (Some batch), st1) \<Rightarrow>
         index_loop e (page + 1) (fst (merge_batch batch (all_series, seen)))
           (snd (merge_batch batch (all_series, seen))) st1)"

declare index_loop.simps [code]

definition scrape_all_series :: "env \<Rightarrow> state \<Rightarrow> series list result" where
  "scrape_all_series e st =
    (case index_loop e 1 [] {} (emit (Print ''--- Finding all Series ---'') st) of
       None \<Rightarrow> None
     | Some (Inl x, st1) \<Rightarrow> Some (Inl x, st1)
     | Some (Inr all_series, st1) \<Rightarrow>
         Some (Inr all_series,
           emit (Print (''Total Series Found: '' @ show_nat (length all_series) @ ''\<newline>'')) st1))"

section \<open>Season pages\<close>

definition season_url :: "string \<Rightarrow> nat \<Rightarrow> string" where
  "season_url show_url season_number = show_url @ ''/season:'' @ show_nat season_number"

definition get_episode_links :: "env \<Rightarrow> string \<Rightarrow> nat \<Rightarrow> state \<Rightarrow> string list result" where
  "get_episode_links e show_url season_number st =
    (case blocking_get e (season_url show_url season_number) False st of
       None \<Rightarrow> None
     | Some (Inl x, st1) \<Rightarrow> Some (Inl x, st1)
     | Some (Inr r, st1) \<Rightarrow> Some (Inr (map (urljoin e show_url) (episode_hrefs r)), st1))"

partial_function (option) season_loop ::
  "env \<Rightarrow> string \<Rightarrow> nat \<Rightarrow> string list \<Rightarrow> state \<Rightarrow> string list result" where
  "season_loop e show_url season all_episodes st =
    (case get_episode_links e show_url season st of
       None \<Rightarrow> None
     | Some (Inl x, st1) \<Rightarrow> Some (Inl x, st1)
     | Some (Inr episodes, st1) \<Rightarrow>
         if episodes = [] then Some (Inr all_episodes, st1)
         else season_loop e show_url (season + 1) (all_episodes @ episodes) st1)"

declare season_loop.simps [code]

definition scrape_show_episodes :: "env \<Rightarrow> series \<Rightarrow> state \<Rightarrow> string list result" where
  "scrape_show_episodes e s st =
    season_loop e (url s) 1 [] (emit (Print (''--- Scraping: '' @ title s @ '' ---'')) st)"

section \<open>Locating the external tools\<close>

text \<open>Python's truth value of \<^verbatim>\<open>None\<close> or a string.\<close>

fun truthy :: "string option \<Rightarrow> bool" where
  "truthy None = False"
| "truthy (Some s) = (s \<noteq> [])"

fun resolve_binary :: "env \<Rightarrow> string list \<Rightarrow> string option" where
  "resolve_binary e [] = None"
| "resolve_binary e (name # names) =
    (if truthy (which e name) then which e name
     else if isfile e (abspath e name) then Some (abspath e name)
     else resolve_binary e names)"

definition get_ytdlp_binary :: "env \<Rightarrow> exn + string" where
  "get_ytdlp_binary e =
    (let candidates = (if os_name e = ''nt'' then [''yt-dlp.exe'', ''yt-dlp''] else [''yt-dlp'']) in
     case resolve_binary e candidates of
       None \<Rightarrow> Inl (FileNotFoundError ''yt-dlp binary not found in PATH or current directory'')
     | Some binary \<Rightarrow>
         if binary = [] then
           Inl (FileNotFoundError ''yt-dlp binary not found in PATH or current directory'')
         else Inr binary)"

definition get_ffmpeg_path :: "env \<Rightarrow> string option" where
  "get_ffmpeg_path e =
    resolve_binary e (if os_name e = ''nt'' then [''ffmpeg.exe'', ''ffmpeg''] else [''ffmpeg''])"

section \<open>The download phase\<close>

definition ytdlp_command :: "env \<Rightarrow> string \<Rightarrow> string \<Rightarrow> string option \<Rightarrow> string list" where
  "ytdlp_command e ytdlp output_dir ffmpeg_path =
    [ytdlp,
     ''--cookies'', COOKIES_FILE,
     ''-a'', OUTPUT_FILE,
     ''--write-subs'',
     ''--write-auto-subs'',
     ''--sub-langs'', ''en.*'',
     ''--embed-subs'',
     ''--embed-thumbnail'',
     ''--add-metadata'',
     ''--embed-metadata'',
     ''--write-info-json'',
     ''--write-description'',
     ''--write-thumbnail'',
     ''--convert-thumbnails'', ''jpg'',
     ''--download-archive'', ARCHIVE_FILE,
     ''-o'', path_join e output_dir
       ''%(series)s/Season %(season_number)02d/%(episode_number)02d - %(episode)s.%(ext)s'']
    @ (case ffmpeg_path of
         None \<Rightarrow> []
       | Some p \<Rightarrow> if p = [] then [] else [''--ffmpeg-location'', p])"

definition banner :: "state \<Rightarrow> state" where
  "banner st =
    emit (Print (replicate 50 CHR ''='' @ ''\<newline>''))
      (emit (Print ''STARTING YT-DLP DOWNLOAD'')
        (emit (Print (''\<newline>'' @ replicate 50 CHR ''='')) st))"

text \<open>
  \<^verbatim>\<open>subprocess.run(command, check=True)\<close> raises \<^verbatim>\<open>CalledProcessError\<close> when the
  downloader exits with a status other than 0; the two handlers of the source, for
  \<^verbatim>\<open>CalledProcessError\<close> and for \<^verbatim>\<open>KeyboardInterrupt\<close>, only print. An \<^verbatim>\<open>OSError\<close> of
  the call is caught by neither and leaves \<^verbatim>\<open>run_ytdlp\<close>. The \<^verbatim>\<open>try\<close> around
  \<^verbatim>\<open>get_ytdlp_binary\<close> catches \<^verbatim>\<open>FileNotFoundError\<close> only.
\<close>

definition run_ytdlp :: "env \<Rightarrow> string \<Rightarrow> state \<Rightarrow> (exn + unit) \<times> state" where
  "run_ytdlp e output_dir st =
    (if \<not> path_exists e COOKIES_FILE (clock st) then
       (Inr (), emit (Print (''\<newline>ERROR: '' @ [CHR 0x27] @ COOKIES_FILE @ [CHR 0x27]
                        @ '' is missing. Cannot proceed with download.'')) st)
     else
       case get_ytdlp_binary e of
         Inl (FileNotFoundError m) \<Rightarrow> (Inr (), emit (Print (''\<newline>ERROR: '' @ m)) st)
       | Inl x \<Rightarrow> (Inl x, st)
       | Inr ytdlp \<Rightarrow>
           (let command = ytdlp_command e ytdlp output_dir (get_ffmpeg_path e);
                st1 = emit (Run command) (banner st) in
            case subprocess_run e command of
              Exited returncode \<Rightarrow>
                if returncode = 0 then
                  (Inr (), emit (Print ''\<newline>Download batch complete.'') st1)
                else
                  (Inr (), emit (Print (''yt-dlp encountered an error (Code: ''
                                        @ show_int returncode @ '').'')) st1)
            | SpawnError m \<Rightarrow> (Inl (OSError m), st1)
            | RunInterrupt \<Rightarrow>
                (Inr (), emit (Print ''\<newline>Download cancelled by user.'') st1)))"

section \<open>The prerequisites check\<close>

fun emit_all :: "event list \<Rightarrow> state \<Rightarrow> state" where
  "emit_all [] st = st"
| "emit_all (x # xs) st = emit_all xs (emit x st)"

definition check_prerequisites :: "env \<Rightarrow> state \<Rightarrow> (exn + unit) \<times> state" where
  "check_prerequisites e st =
    (let st1 = emit (Print ''--- Checking Prerequisites ---'') st in
     if \<not> path_exists e COOKIES_FILE (clock st) then
       (Inl (SystemExit 1),
        emit_all
          [Print (''\<newline>[CRITICAL ERROR] Cookies file not found: '' @ abspath e COOKIES_FILE),
           Print (''You must export your cookies as '' @ [CHR 0x27] @ ''cookies.txt'' @ [CHR 0x27]
                  @ '' and place them in the '' @ [CHR 0x27] @ ''config'' @ [CHR 0x27] @ '' folder.''),
           Print ''Cannot proceed without cookies.''] st1)
     else
       (let st2 = emit (Print (''[OK] Cookies found: '' @ COOKIES_FILE)) st1;
            st3 =
              (if \<not> path_exists e ARCHIVE_FILE (clock st) then
                 emit_all
                   [Print (''\<newline>[WARNING] Archive file not found: '' @ abspath e ARCHIVE_FILE),
                    Print ''yt-dlp will NOT be able to skip previously downloaded videos.'',
                    Print ''A new archive file will be created after this run.'',
                    Print ''If this is your first run, you can ignore this warning.\<newline>'',
                    Sleep 2000] st2
               else emit (Print (''[OK] Archive found: '' @ ARCHIVE_FILE)) st2)
        in (Inr (), emit (Print ''------------------------------\<newline>'') st3)))"

section \<open>The main program\<close>

text \<open>How the process ends: with an exit status, or by an exception nobody caught.\<close>

datatype ending = ExitStatus nat | Uncaught exn

fun ending_of :: "exn \<Rightarrow> ending" where
  "ending_of (SystemExit n) = ExitStatus n"
| "ending_of x = Uncaught x"

text \<open>The inner loop of the main program: one line per URL, appended to the file.\<close>

fun write_urls :: "string list \<Rightarrow> state \<times> nat \<Rightarrow> state \<times> nat" where
  "write_urls [] acc = acc"
| "write_urls (u # us) (st, total_urls) =
    write_urls us (st\<lparr>outfile := outfile st @ u @ ''\<newline>''\<rparr>, total_urls + 1)"

text \<open>
  The loop over the series. It stops at the first exception, keeping the count and the
  file as they are at that moment (the \<^verbatim>\<open>try\<close> of the main program encloses it).
\<close>

fun scrape_and_write ::
  "env \<Rightarrow> series list \<Rightarrow> state \<times> nat \<Rightarrow> (exn option \<times> state \<times> nat) option" where
  "scrape_and_write e [] (st, total_urls) = Some (None, st, total_urls)"
| "scrape_and_write e (s # series_list) (st, total_urls) =
    (case scrape_show_episodes e s st of
       None \<Rightarrow> None
     | Some (Inl x, st1) \<Rightarrow> Some (Some x, st1, total_urls)
     | Some (Inr episode_urls, st1) \<Rightarrow>
         scrape_and_write e series_list (write_urls episode_urls (st1, total_urls)))"

definition finish :: "env \<Rightarrow> string \<Rightarrow> nat \<Rightarrow> state \<Rightarrow> ending \<times> state" where
  "finish e output_dir total_urls st =
    (let st1 = emit (Print (''\<newline>Scraping Finished. Found '' @ show_nat total_urls @ '' links.'')) st in
     if total_urls > 0 then
       (case run_ytdlp e output_dir st1 of
          (Inl x, st2) \<Rightarrow> (ending_of x, st2)
        | (Inr _, st2) \<Rightarrow> (ExitStatus 0, st2))
     else (ExitStatus 0, emit (Print ''No URLs found. Exiting.'') st1))"

text \<open>
  \<^verbatim>\<open>parse_args\<close>: the parser is given the default \<^verbatim>\<open>Dropout\<close> and reads the command
  line; the result is \<^verbatim>\<open>args.output_dir\<close>, unless the parser ends the process itself.
\<close>

definition parse_args :: "env \<Rightarrow> exn + string" where
  "parse_args e = parser_parse_args e ''Dropout'' (argv e)"

text \<open>
  The program. Nothing catches the \<^verbatim>\<open>SystemExit\<close> of the parser or of
  \<^verbatim>\<open>check_prerequisites\<close>, an exception of the index walk, or an exception of the
  download phase; only the loop over the series is inside a \<^verbatim>\<open>try\<close>, which catches
  \<^verbatim>\<open>KeyboardInterrupt\<close>. Errors of \<^verbatim>\<open>os.makedirs\<close> and of opening the output file are
  not modelled.
\<close>

definition main :: "env \<Rightarrow> state \<Rightarrow> (ending \<times> state) option" where
  "main e st =
    (case parse_args e of
       Inl x \<Rightarrow> Some (ending_of x, st)
     | Inr args_output_dir \<Rightarrow>
          (case check_prerequisites e st of
             (Inl x, st1) \<Rightarrow> Some (ending_of x, st1)
           | (Inr _, st1) \<Rightarrow>
               (let raw_output_dir = expand e args_output_dir;
                    output_dir =
                      (if \<not> isabs e raw_output_dir then abspath e (path_join e (script_dir e) raw_output_dir)
                       else abspath e raw_output_dir);
                    st2 = emit (Print (''Saving results to '' @ output_dir)) (emit (Makedirs output_dir) st1)
                in
                case scrape_all_series e st2 of
                  None \<Rightarrow> None
                | Some (Inl x, st3) \<Rightarrow> Some (ending_of x, st3)
                | Some (Inr series_list, st3) \<Rightarrow>
                    (let st4 = (emit (Print ''--- Scraping Episodes & Writing to File ---'') st3)\<lparr>outfile := []\<rparr> in
                     case scrape_and_write e series_list (st4, 0) of
                       None \<Rightarrow> None
                     | Some (None, st5, total_urls) \<Rightarrow> Some (finish e output_dir total_urls st5)
                     | Some (Some KeyboardInterrupt, st5, total_urls) \<Rightarrow>
                         Some (finish e output_dir total_urls
                           (emit (Print ''\<newline>Scraping interrupted! Proceeding to download with whatever we found...'') st5))
                     | Some (Some x, st5, total_urls) \<Rightarrow> Some (ending_of x, st5)))))"

section \<open>Vocabulary of the properties\<close>

text \<open>The commands handed to \<^verbatim>\<open>subprocess.run\<close> so far, oldest first.\<close>

fun ran :: "event list \<Rightarrow> string list list" where
  "ran [] = []"
| "ran (Run c # es) = c # ran es"
| "ran (e # es) = ran es"

text \<open>
  An attempt fails transiently when \<^verbatim>\<open>session.get\<close> raises a request exception, or
  returns a status for which \<^verbatim>\<open>raise_for_status\<close> raises and which is not the
  boundary status 400 under \<^verbatim>\<open>allow_400_stop\<close>. A response is accepted when the
  loop returns it.
\<close>

definition transient_failure :: "bool \<Rightarrow> outcome \<Rightarrow> bool" where
  "transient_failure allow_400_stop out =
    (case out of
       Response r \<Rightarrow> raises_HTTPError r \<and> \<not> (allow_400_stop \<and> status_code r = 400)
     | NetworkError m \<Rightarrow> True
     | Interrupt \<Rightarrow> False)"

definition accepted :: "bool \<Rightarrow> response \<Rightarrow> bool" where
  "accepted allow_400_stop r = ((allow_400_stop \<and> status_code r = 400) \<or> \<not> raises_HTTPError r)"

text \<open>
  The events of one attempt of the fetch loop on \<open>u\<close>: of an attempt that fails (the
  request, the message, the backoff sleep), and of the attempt whose response is
  returned.
\<close>

definition failed_attempt :: "string \<Rightarrow> string \<Rightarrow> event list" where
  "failed_attempt u message =
    [Print (''[GET] '' @ u), Get u, Print message, Sleep (REQUEST_DELAY * 2)]"

definition accepted_attempt :: "string \<Rightarrow> bool \<Rightarrow> response \<Rightarrow> event list" where
  "accepted_attempt u allow_400_stop r =
    [Print (''[GET] '' @ u), Get u]
    @ (if allow_400_stop \<and> status_code r = 400 then [] else [Sleep REQUEST_DELAY])"

section \<open>Example worlds\<close>

definition ok_page :: response where
  "ok_page = \<lparr>status_code = 200, series_items = [], episode_hrefs = [''/videos/e1'']\<rparr>"

definition dead_get :: "string \<Rightarrow> nat \<Rightarrow> outcome" where
  "dead_get u n = NetworkError ''timed out''"

definition flaky_get :: "string \<Rightarrow> nat \<Rightarrow> outcome" where
  "flaky_get u n =
    (if n = 0 then NetworkError ''timed out''
     else if n = 1 then Response \<lparr>status_code = 503, series_items = [], episode_hrefs = []\<rparr>
     else Response ok_page)"

text \<open>
  A parser for the command lines of the examples: no argument, \<^verbatim>\<open>-h\<close> or \<^verbatim>\<open>--help\<close>
  alone, \<^verbatim>\<open>-o DIR\<close> or \<^verbatim>\<open>--output-dir DIR\<close>; everything else is a usage error here.
\<close>

definition example_parse_args :: "string \<Rightarrow> string list \<Rightarrow> exn + string" where
  "example_parse_args d args =
    (case args of
       [] \<Rightarrow> Inr d
     | [a] \<Rightarrow> if a = ''-h'' \<or> a = ''--help'' then Inl (SystemExit 0) else Inl (SystemExit 2)
     | [a, v] \<Rightarrow>
         if (a = ''-o'' \<or> a = ''--output-dir'') \<and> v \<noteq> [] \<and> hd v \<noteq> CHR ''-'' then Inr v
         else Inl (SystemExit 2)
     | _ \<Rightarrow> Inl (SystemExit 2))"

definition example_env :: "(string \<Rightarrow> nat \<Rightarrow> outcome) \<Rightarrow> env" where
  "example_env get =
    \<lparr>argv = [],
     parser_parse_args = example_parse_args,
     session_get = get,
     path_exists = (\<lambda>p n. True),
     os_name = ''posix'',
     which = (\<lambda>name. if name = ''yt-dlp'' then Some ''/usr/bin/yt-dlp'' else None),
     isfile = (\<lambda>p. False),
     abspath = (\<lambda>p. if p \<noteq> [] \<and> hd p = CHR ''/'' then p else ''/home/u/'' @ p),
     isabs = (\<lambda>p. p \<noteq> [] \<and> hd p = CHR ''/''),
     expand = (\<lambda>p. p),
     path_join = (\<lambda>a b. a @ ''/'' @ b),
     script_dir = ''/home/u'',
     urljoin = (\<lambda>b h. BASE_URL @ h),
     subprocess_run = (\<lambda>c. Exited 0)\<rparr>"

definition st0 :: state where
  "st0 = \<lparr>trace = [], outfile = ''old''\<rparr>"

subsection \<open>The index walk\<close>

fun merge_pages :: "series list list \<Rightarrow> series list \<times> string set \<Rightarrow> series list \<times> string set" where
  "merge_pages [] acc = acc"
| "merge_pages (batch # batches) acc = merge_pages batches (merge_batch batch acc)"

function first_seen :: "series list \<Rightarrow> series list" where
  "first_seen [] = []"
| "first_seen (s # ss) = s # first_seen (filter (\<lambda>t. url t \<noteq> url s) ss)"
  by pat_completeness auto
termination
  by (relation "measure length") (auto simp: less_Suc_eq_le)

definition unique_by_url :: "series list \<times> string set \<Rightarrow> bool" where
  "unique_by_url acc = (distinct (map url (fst acc)) \<and> snd acc = set (map url (fst acc)))"

text \<open>
  \<open>fetch_pages e n page st\<close>: the index pages \<open>page, \<dots>, page + n - 1\<close> are fetched one
  after the other from state \<open>st\<close> and each yields a batch; the result is the batches and
  the state after the last of them.
\<close>

fun fetch_pages :: "env \<Rightarrow> nat \<Rightarrow> nat \<Rightarrow> state \<Rightarrow> (series list list \<times> state) option" where
  "fetch_pages e 0 page st = Some ([], st)"
| "fetch_pages e (Suc n) page st =
    (case get_series_from_page e page st of
       Some (Inr (Some batch), st1) \<Rightarrow>
         (case fetch_pages e n (page + 1) st1 of
            Some (batches, st') \<Rightarrow> Some (batch # batches, st')
          | None \<Rightarrow> None)
     | _ \<Rightarrow> None)"

text \<open>
  \<open>probes f i ks\<close>: the URL \<open>f i\<close> requested \<open>ks ! 0 + 1\<close> times, then \<open>f (i + 1)\<close>
  requested \<open>ks ! 1 + 1\<close> times, and so on: pages probed in ascending order, each with
  its retries.
\<close>

fun probes :: "(nat \<Rightarrow> string) \<Rightarrow> nat \<Rightarrow> nat list \<Rightarrow> string list" where
  "probes f i [] = []"
| "probes f i (k # ks) = replicate (Suc k) (f i) @ probes f (Suc i) ks"

definition series_item :: "string \<Rightarrow> string option \<Rightarrow> item" where
  "series_item path t = \<lparr>link_href = Some (BASE_URL @ path), title_text = t\<rparr>"

definition page_of :: "item list \<Rightarrow> string list \<Rightarrow> response" where
  "page_of items hrefs = \<lparr>status_code = 200, series_items = items, episode_hrefs = hrefs\<rparr>"

definition boundary_page :: response where
  "boundary_page = \<lparr>status_code = 400, series_items = [], episode_hrefs = []\<rparr>"

text \<open>
  A small catalogue: the first request of the run times out; index page 1 lists shows A
  and B, page 2 lists A again (under another title), an item without a link and show C
  (without a title), page 3 answers 400. Show A has one season of three episodes, show
  B two seasons of one episode, show C none; every other page is empty.
\<close>

definition site_get :: "string \<Rightarrow> nat \<Rightarrow> outcome" where
  "site_get u n =
    (if n = 0 then NetworkError ''timed out''
     else if u = index_url 1 then
       Response (page_of [series_item ''/show-a'' (Some ''Show A''),
                          series_item ''/show-b'' (Some ''Show B'')] [])
     else if u = index_url 2 then
       Response (page_of [series_item ''/show-a'' (Some ''Show A again''),
                          \<lparr>link_href = None, title_text = Some ''Teaser''\<rparr>,
                          series_item ''/show-c'' None] [])
     else if u = index_url 3 then Response boundary_page
     else if u = season_url (BASE_URL @ ''/show-a'') 1 then
       Response (page_of [] [''/show-a/season:1/videos/e1'', ''/show-a/season:1/videos/e2'',
                             ''/show-a/season:1/videos/e3''])
     else if u = season_url (BASE_URL @ ''/show-b'') 1 then
       Response (page_of [] [''/show-b/season:1/videos/e1''])
     else if u = season_url (BASE_URL @ ''/show-b'') 2 then
       Response (page_of [] [''/show-b/season:2/videos/e1''])
     else Response (page_of [] []))"

definition site_env :: env where
  "site_env = example_env site_get"

definition show_a :: series where
  "show_a = \<lparr>title = ''Show A'', url = BASE_URL @ ''/show-a''\<rparr>"

definition show_b :: series where
  "show_b = \<lparr>title = ''Show B'', url = BASE_URL @ ''/show-b''\<rparr>"

definition show_c :: series where
  "show_c = \<lparr>title = ''Unknown'', url = BASE_URL @ ''/show-c''\<rparr>"

definition site_batches :: "series list list" where
  "site_batches = [[show_a, show_b], [show_a\<lparr>title := ''Show A again''\<rparr>, show_c]]"

subsection \<open>The season walk\<close>

text \<open>
  \<open>fetch_seasons e show_url n season st\<close>: the season pages \<open>season, \<dots>, season + n - 1\<close>
  of the show are fetched one after the other from state \<open>st\<close> and each yields at least
  one episode link; the result is the link lists and the state after the last of them.
\<close>

fun fetch_seasons ::
  "env \<Rightarrow> string \<Rightarrow> nat \<Rightarrow> nat \<Rightarrow> state \<Rightarrow> (string list list \<times> state) option" where
  "fetch_seasons e show_url 0 season st = Some ([], st)"
| "fetch_seasons e show_url (Suc n) season st =
    (case get_episode_links e show_url season st of
       Some (Inr episodes, st1) \<Rightarrow>
         if episodes = [] then None
         else (case fetch_seasons e show_url n (season + 1) st1 of
                 Some (rest, st') \<Rightarrow> Some (episodes # rest, st')
               | None \<Rightarrow> None)
     | _ \<Rightarrow> None)"

subsection \<open>Variations of the small catalogue\<close>

text \<open>Worlds that differ from the small catalogue in one respect.\<close>

definition no_cookies_env :: env where
  "no_cookies_env = site_env\<lparr>path_exists := (\<lambda>p n. p \<noteq> COOKIES_FILE)\<rparr>"

definition no_ytdlp_env :: env where
  "no_ytdlp_env = site_env\<lparr>which := (\<lambda>name. None)\<rparr>"

definition failing_ytdlp_env :: env where
  "failing_ytdlp_env = site_env\<lparr>subprocess_run := (\<lambda>c. Exited 1)\<rparr>"

definition interrupted_ytdlp_env :: env where
  "interrupted_ytdlp_env = site_env\<lparr>subprocess_run := (\<lambda>c. RunInterrupt)\<rparr>"

text \<open>
  A world in which \<^verbatim>\<open>yt-dlp\<close> is not on the \<^verbatim>\<open>PATH\<close> but a regular file of that name
  lies in the current directory, and the file cannot be executed.
\<close>

definition unstartable_ytdlp_env :: env where
  "unstartable_ytdlp_env =
    site_env\<lparr>which := (\<lambda>name. None),
             isfile := (\<lambda>p. p = ''/home/u/yt-dlp''),
             subprocess_run := (\<lambda>c. SpawnError ''[Errno 13] Permission denied'')\<rparr>"

text \<open>The program is started with \<^verbatim>\<open>--help\<close> where there is no cookie file.\<close>

definition help_env :: env where
  "help_env = no_cookies_env\<lparr>argv := [''--help'']\<rparr>"

subsection \<open>The episode walk and the output file\<close>

text \<open>The content of a file that holds the given URLs, one per line.\<close>

definition lines_of :: "string list \<Rightarrow> string" where
  "lines_of urls = concat (map (\<lambda>u. u @ ''\<newline>'') urls)"

definition appended :: "string list \<Rightarrow> state \<Rightarrow> state" where
  "appended urls st = st\<lparr>outfile := outfile st @ lines_of urls\<rparr>"

text \<open>
  The states at which the two walks of the main program begin, for the output directory
  \<open>d\<close> given on the command line: \<open>before_index_walk\<close> when the prerequisites have been
  checked and the directory made, \<open>before_episode_walk\<close> when the index walk has ended in
  \<open>st\<close> and the output file has been truncated.
\<close>

definition output_dir_of :: "env \<Rightarrow> string \<Rightarrow> string" where
  "output_dir_of e d =
    (if \<not> isabs e (expand e d) then abspath e (path_join e (script_dir e) (expand e d))
     else abspath e (expand e d))"

definition before_index_walk :: "env \<Rightarrow> string \<Rightarrow> state \<Rightarrow> state" where
  "before_index_walk e d st =
    emit (Print (''Saving results to '' @ output_dir_of e d))
      (emit (Makedirs (output_dir_of e d)) (snd (check_prerequisites e st)))"

definition before_episode_walk :: "state \<Rightarrow> state" where
  "before_episode_walk st =
    (emit (Print ''--- Scraping Episodes & Writing to File ---'') st)\<lparr>outfile := []\<rparr>"

text \<open>
  \<open>fetch_season_pages e show_url n season st\<close>: the season pages
  \<open>season, \<dots>, season + n - 1\<close> of the show are fetched one after the other from state
  \<open>st\<close> and each holds at least one episode link; the result is, page by page, the
  \<^verbatim>\<open>href\<close>s of the links in page order, and the state after the last page.
\<close>

fun fetch_season_pages ::
  "env \<Rightarrow> string \<Rightarrow> nat \<Rightarrow> nat \<Rightarrow> state \<Rightarrow> (string list list \<times> state) option" where
  "fetch_season_pages e show_url 0 season st = Some ([], st)"
| "fetch_season_pages e show_url (Suc n) season st =
    (case blocking_get e (season_url show_url season) False st of
       Some (Inr r, st1) \<Rightarrow>
         if episode_hrefs r = [] then None
         else (case fetch_season_pages e show_url n (season + 1) st1 of
                 Some (rest, st') \<Rightarrow> Some (episode_hrefs r # rest, st')
               | None \<Rightarrow> None)
     | _ \<Rightarrow> None)"

text \<open>
  The episode URLs of one show, from the \<^verbatim>\<open>href\<close>s of its season pages: season after
  season, within a season in page order, each the join of the show's URL with the
  \<^verbatim>\<open>href\<close>.
\<close>

definition episode_urls_of :: "env \<Rightarrow> series \<Rightarrow> string list list \<Rightarrow> string list" where
  "episode_urls_of e s pages = concat (map (map (urljoin e (url s))) pages)"

text \<open>The same for a list of shows, show after show.\<close>

fun written_urls :: "env \<Rightarrow> series list \<Rightarrow> string list list list \<Rightarrow> string list" where
  "written_urls e (s # ss) (pages # rest) = episode_urls_of e s pages @ written_urls e ss rest"
| "written_urls e _ _ = []"

text \<open>
  \<open>fetch_shows e series_list ns st\<close>: the shows are walked in the order of the list from state
  \<open>st\<close>; the show at position \<open>i\<close> has \<open>ns ! i\<close> seasons with episode links, fetched in
  ascending order from season 1, and its next season page holds no link; after each
  show its episode URLs are appended to the output file. The result is, show by show,
  the \<^verbatim>\<open>href\<close>s of its season pages, and the state after the last show.
\<close>

fun fetch_shows ::
  "env \<Rightarrow> series list \<Rightarrow> nat list \<Rightarrow> state \<Rightarrow> (string list list list \<times> state) option" where
  "fetch_shows e [] [] st = Some ([], st)"
| "fetch_shows e (s # ss) (n # ns) st =
    (case fetch_season_pages e (url s) n 1
            (emit (Print (''--- Scraping: '' @ title s @ '' ---'')) st) of
       Some (pages, st1) \<Rightarrow>
         (case blocking_get e (season_url (url s) (Suc n)) False st1 of
            Some (Inr r, st2) \<Rightarrow>
              if episode_hrefs r = [] then
                (case fetch_shows e ss ns (appended (episode_urls_of e s pages) st2) of
                   Some (rest, st') \<Rightarrow> Some (pages # rest, st')
                 | None \<Rightarrow> None)
              else None
          | _ \<Rightarrow> None)
     | None \<Rightarrow> None)"
| "fetch_shows e _ _ st = None"



text \<open>The user interrupts the program during its first request.\<close>

definition interrupted_index_env :: env where
  "interrupted_index_env = example_env (\<lambda>u n. Interrupt)"

text \<open>How a run ended and what the output file holds then.\<close>

definition ending_and_file :: "(ending \<times> state) option \<Rightarrow> (ending \<times> string) option" where
  "ending_and_file res = map_option (\<lambda>(en, st). (en, outfile st)) res"

text \<open>
  The episode walk of the small catalogue: the \<^verbatim>\<open>href\<close>s found, show by show and season
  by season, and the episode URLs in the order of discovery.
\<close>

definition site_walk :: "string list list list" where
  "site_walk =
    [[[''/show-a/season:1/videos/e1'', ''/show-a/season:1/videos/e2'',
       ''/show-a/season:1/videos/e3'']],
     [[''/show-b/season:1/videos/e1''], [''/show-b/season:2/videos/e1'']],
     []]"

definition site_urls :: "string list" where
  "site_urls =
    [BASE_URL @ ''/show-a/season:1/videos/e1'', BASE_URL @ ''/show-a/season:1/videos/e2'',
     BASE_URL @ ''/show-a/season:1/videos/e3'', BASE_URL @ ''/show-b/season:1/videos/e1'',
     BASE_URL @ ''/show-b/season:2/videos/e1'']"

subsection \<open>Absolute URLs\<close>








section \<open>Properties\<close>

subsection \<open>Traces\<close>

lemma ran_append: "ran (xs @ ys) = ran xs @ ran ys"
  by (induction xs rule: ran.induct) auto

lemma requested_append: "requested (xs @ ys) = requested xs @ requested ys"
  by (induction xs rule: requested.induct) auto

lemma trace_emit: "trace (emit ev st) = trace st @ [ev]"
  by (simp add: emit_def)

lemma outfile_emit: "outfile (emit ev st) = outfile st"
  by (simp add: emit_def)

lemma trace_retry_slowly:
  "trace (retry_slowly m st) = trace st @ [Print m, Sleep (REQUEST_DELAY * 2)]"
  by (simp add: retry_slowly_def trace_emit)

lemma outfile_retry_slowly: "outfile (retry_slowly m st) = outfile st"
  by (simp add: retry_slowly_def outfile_emit)

lemma clock_attempt:
  "clock (retry_slowly m (emit (Get u) (emit (Print p) st))) = Suc (clock st)"
  by (simp add: clock_def trace_retry_slowly trace_emit requested_append)

subsection \<open>C1: the fetch loop retries without a bound\<close>

lemma blocking_get_Some_attempt:
  assumes "blocking_get e u allow st = Some y"
  shows "\<exists>n. \<not> transient_failure allow (session_get e u (clock st + n))"
proof (rule blocking_get.raw_induct
    [where P = "\<lambda>e u allow st y. \<exists>n. \<not> transient_failure allow (session_get e u (clock st + n))",
     OF _ assms], goal_cases)
  case (1 bg e u allow st y)
  note IH = 1(1) and body = 1(2)
  show ?case
  proof (cases "transient_failure allow (session_get e u (clock st))")
    case False
    then have "\<not> transient_failure allow (session_get e u (clock st + 0))" by simp
    then show ?thesis by blast
  next
    case True
    then obtain m where
      rec: "bg e u allow (retry_slowly m (emit (Get u) (emit (Print (''[GET] '' @ u)) st))) = Some y"
      using body
      by (auto simp: transient_failure_def Let_def split: outcome.splits if_splits)
    from IH[OF rec] obtain n where
      "\<not> transient_failure allow (session_get e u (Suc (clock st) + n))"
      by (auto simp: clock_attempt)
    then have "\<not> transient_failure allow (session_get e u (clock st + Suc n))" by simp
    then show ?thesis by blast
  qed
qed

lemma blocking_get_dead:
  assumes "\<forall>n. transient_failure allow (session_get e u (clock st + n))"
  shows "blocking_get e u allow st = None"
proof (cases "blocking_get e u allow st")
  case None then show ?thesis .
next
  case (Some y)
  from blocking_get_Some_attempt[OF Some] assms show ?thesis by blast
qed

lemma blocking_get_returns:
  assumes "blocking_get e u allow st = Some y"
  shows "\<forall>r st'. y = (Inr r, st') \<longrightarrow>
           accepted allow r \<and> (\<exists>n. session_get e u (clock st + n) = Response r)"
proof (rule blocking_get.raw_induct
    [where P = "\<lambda>e u allow st y. \<forall>r st'. y = (Inr r, st') \<longrightarrow>
           accepted allow r \<and> (\<exists>n. session_get e u (clock st + n) = Response r)",
     OF _ assms], goal_cases)
  case (1 bg e u allow st y)
  note IH = 1(1) and body = 1(2)
  show ?case
  proof (cases "transient_failure allow (session_get e u (clock st))")
    case False
    then show ?thesis using body
      apply (auto simp: transient_failure_def accepted_def Let_def split: outcome.splits if_splits)
      by (metis add.right_neutral)+
  next
    case True
    then obtain m where
      rec: "bg e u allow (retry_slowly m (emit (Get u) (emit (Print (''[GET] '' @ u)) st))) = Some y"
      using body
      by (auto simp: transient_failure_def Let_def split: outcome.splits if_splits)
    show ?thesis
    proof (intro allI impI)
      fix r st' assume y: "y = (Inr r, st')"
      from IH[OF rec] y obtain n where
        a: "accepted allow r" and "session_get e u (Suc (clock st) + n) = Response r"
        by (auto simp: clock_attempt)
      then have "session_get e u (clock st + Suc n) = Response r" by simp
      with a show "accepted allow r \<and> (\<exists>n. session_get e u (clock st + n) = Response r)" by blast
    qed
  qed
qed

lemma blocking_get_frame:
  assumes "blocking_get e u allow st = Some y"
  shows "outfile (snd y) = outfile st \<and>
    (\<exists>evs k. trace (snd y) = trace st @ evs \<and> requested evs = replicate (Suc k) u \<and> ran evs = [])"
proof (rule blocking_get.raw_induct
    [where P = "\<lambda>e u allow st y. outfile (snd y) = outfile st \<and>
    (\<exists>evs k. trace (snd y) = trace st @ evs \<and> requested evs = replicate (Suc k) u \<and> ran evs = [])",
     OF _ assms], goal_cases)
  case (1 bg e u allow st y)
  note IH = 1(1) and body = 1(2)
  let ?st1 = "emit (Get u) (emit (Print (''[GET] '' @ u)) st)"
  have base: "trace ?st1 = trace st @ [Print (''[GET] '' @ u), Get u]" "outfile ?st1 = outfile st"
    by (simp_all add: trace_emit outfile_emit)
  show ?case
  proof (cases "transient_failure allow (session_get e u (clock st))")
    case False
    then have "snd y = ?st1 \<or> snd y = emit (Sleep REQUEST_DELAY) ?st1"
      using body
      by (auto simp: transient_failure_def Let_def split: outcome.splits if_splits)
    then show ?thesis
    proof
      assume s: "snd y = ?st1"
      have "trace ?st1 = trace st @ [Print (''[GET] '' @ u), Get u] \<and>
            requested [Print (''[GET] '' @ u), Get u] = replicate (Suc 0) u \<and>
            ran [Print (''[GET] '' @ u), Get u] = []"
        by (simp add: trace_emit)
      then show ?thesis unfolding s using base(2) by blast
    next
      assume s: "snd y = emit (Sleep REQUEST_DELAY) ?st1"
      have "trace (emit (Sleep REQUEST_DELAY) ?st1) = trace st @ [Print (''[GET] '' @ u), Get u, Sleep REQUEST_DELAY] \<and>
            requested [Print (''[GET] '' @ u), Get u, Sleep REQUEST_DELAY] = replicate (Suc 0) u \<and>
            ran [Print (''[GET] '' @ u), Get u, Sleep REQUEST_DELAY] = []"
        by (simp add: trace_emit)
      moreover have "outfile (emit (Sleep REQUEST_DELAY) ?st1) = outfile st"
        by (simp add: outfile_emit)
      ultimately show ?thesis unfolding s by blast
    qed
  next
    case True
    then obtain m where
      rec: "bg e u allow (retry_slowly m ?st1) = Some y"
      using body
      by (auto simp: transient_failure_def Let_def split: outcome.splits if_splits)
    from IH[OF rec] obtain evs k where
      o: "outfile (snd y) = outfile st" and
      t: "trace (snd y) = trace (retry_slowly m ?st1) @ evs" and
      r: "requested evs = replicate (Suc k) u" and n: "ran evs = []"
      by (auto simp: outfile_retry_slowly outfile_emit)
    let ?pre = "[Print (''[GET] '' @ u), Get u, Print m, Sleep (REQUEST_DELAY * 2)]"
    have "trace (snd y) = trace st @ (?pre @ evs)"
      using t by (simp add: trace_retry_slowly trace_emit)
    moreover have "requested (?pre @ evs) = replicate (Suc (Suc k)) u"
      using r by simp
    moreover have "ran (?pre @ evs) = []"
      using n by simp
    ultimately show ?thesis using o by blast
  qed
qed

lemma blocking_get_accept_step:
  assumes "session_get e u (clock st) = Response r" and "accepted allow r"
  shows "blocking_get e u allow st =
    Some (Inr r,
      if allow \<and> status_code r = 400 then emit (Get u) (emit (Print (''[GET] '' @ u)) st)
      else emit (Sleep REQUEST_DELAY) (emit (Get u) (emit (Print (''[GET] '' @ u)) st)))"
  by (rule trans[OF blocking_get.simps]) (use assms in \<open>auto simp: accepted_def Let_def\<close>)

lemma blocking_get_interrupt_step:
  assumes "session_get e u (clock st) = Interrupt"
  shows "blocking_get e u allow st =
    Some (Inl KeyboardInterrupt, emit (Get u) (emit (Print (''[GET] '' @ u)) st))"
  by (rule trans[OF blocking_get.simps]) (use assms in \<open>simp add: Let_def\<close>)

lemma blocking_get_http_step:
  assumes R: "session_get e u (clock st) = Response r"
    and h: "raises_HTTPError r" and c1: "\<not> (allow \<and> status_code r = 400)"
  shows "blocking_get e u allow st =
    blocking_get e u allow
      (retry_slowly (''HTTP '' @ show_nat (status_code r) @ '' error, retrying slowly...'')
        (emit (Get u) (emit (Print (''[GET] '' @ u)) st)))"
  by (rule trans[OF blocking_get.simps])
     (simp only: Let_def R outcome.case if_not_P[OF c1] if_P[OF h])

lemma blocking_get_network_step:
  assumes R: "session_get e u (clock st) = NetworkError m"
  shows "blocking_get e u allow st =
    blocking_get e u allow
      (retry_slowly (''Network error ('' @ m @ ''), retrying slowly...'')
        (emit (Get u) (emit (Print (''[GET] '' @ u)) st)))"
  by (rule trans[OF blocking_get.simps]) (simp only: Let_def R outcome.case)

lemma blocking_get_retry_step:
  assumes "transient_failure allow (session_get e u (clock st))"
  shows "\<exists>m. blocking_get e u allow st =
    blocking_get e u allow (retry_slowly m (emit (Get u) (emit (Print (''[GET] '' @ u)) st)))"
proof (cases "session_get e u (clock st)")
  case (Response r)
  from assms have "raises_HTTPError r" and "\<not> (allow \<and> status_code r = 400)"
    unfolding Response transient_failure_def by simp_all
  from blocking_get_http_step[OF Response this] show ?thesis
    by (intro exI[of _ "''HTTP '' @ show_nat (status_code r) @ '' error, retrying slowly...''"])
next
  case (NetworkError m)
  from blocking_get_network_step[OF NetworkError] show ?thesis
    by (intro exI[of _ "''Network error ('' @ m @ ''), retrying slowly...''"])
next
  case Interrupt
  from assms show ?thesis unfolding Interrupt transient_failure_def by simp
qed

lemma blocking_get_attempts:
  assumes "\<forall>i<n. transient_failure allow (session_get e u (clock st + i))"
    and "session_get e u (clock st + n) = Response r"
    and "accepted allow r"
  shows "\<exists>st' messages. blocking_get e u allow st = Some (Inr r, st') \<and>
           length messages = n \<and>
           trace st' = trace st @ concat (map (failed_attempt u) messages)
             @ accepted_attempt u allow r"
  using assms
proof (induction n arbitrary: st)
  case 0
  let ?st1 = "emit (Get u) (emit (Print (''[GET] '' @ u)) st)"
  define st' where "st' = (if allow \<and> status_code r = 400 then ?st1 else emit (Sleep REQUEST_DELAY) ?st1)"
  from 0 have "session_get e u (clock st) = Response r" by simp
  from blocking_get_accept_step[OF this 0(3)]
  have g: "blocking_get e u allow st = Some (Inr r, st')"
    unfolding st'_def .
  have t: "trace st' = trace st @ concat (map (failed_attempt u) []) @ accepted_attempt u allow r"
    by (simp add: st'_def trace_emit accepted_attempt_def)
  from g t show ?case
    by - (rule exI[of _ st'], rule exI[of _ "[]"], simp)
next
  case (Suc n)
  let ?st1 = "emit (Get u) (emit (Print (''[GET] '' @ u)) st)"
  from Suc.prems(1) have "transient_failure allow (session_get e u (clock st + 0))"
    by blast
  then have tf: "transient_failure allow (session_get e u (clock st))" by simp
  from blocking_get_retry_step[OF tf] obtain m where
    unf: "blocking_get e u allow st = blocking_get e u allow (retry_slowly m ?st1)"
    by blast
  let ?st2 = "retry_slowly m ?st1"
  have "\<forall>i<n. transient_failure allow (session_get e u (clock ?st2 + i))"
  proof (intro allI impI)
    fix i assume "i < n"
    then have "Suc i < Suc n" by simp
    with Suc.prems(1) have "transient_failure allow (session_get e u (clock st + Suc i))"
      by blast
    then show "transient_failure allow (session_get e u (clock ?st2 + i))"
      by (simp add: clock_attempt)
  qed
  moreover have "session_get e u (clock ?st2 + n) = Response r"
    using Suc.prems(2) by (simp add: clock_attempt)
  ultimately have "\<exists>st' messages. blocking_get e u allow ?st2 = Some (Inr r, st') \<and>
           length messages = n \<and>
           trace st' = trace ?st2 @ concat (map (failed_attempt u) messages)
             @ accepted_attempt u allow r"
    using Suc.prems(3) by (rule Suc.IH)
  then obtain st' messages where
    g: "blocking_get e u allow ?st2 = Some (Inr r, st')" and
    l: "length messages = n" and
    t: "trace st' = trace ?st2 @ concat (map (failed_attempt u) messages)
             @ accepted_attempt u allow r"
    by blast
  have "trace ?st2 = trace st @ failed_attempt u m"
    by (simp add: trace_retry_slowly trace_emit failed_attempt_def)
  with t have t': "trace st' = trace st @ concat (map (failed_attempt u) (m # messages))
             @ accepted_attempt u allow r"
    by simp
  from g unf have g': "blocking_get e u allow st = Some (Inr r, st')" by simp
  from l have l': "length (m # messages) = Suc n" by simp
  from g' l' t' show ?case
    by - (rule exI[of _ st'], rule exI[of _ "m # messages"], simp)
qed

text \<open>
  Claim C1. \<^verbatim>\<open>blocking_get\<close> retries on every transient failure and has no attempt
  limit: (1) if every attempt on the URL fails transiently, the call does not return;
  (2) when it returns a response, that response was received from the server and is an
  accepted one (no error status, or the boundary status 400 with the flag set);
  (3) for every \<open>n\<close>, after \<open>n\<close> failed attempts followed by an accepted response the call
  returns that response, and what it did is exactly this, in this order: \<open>n\<close> times a
  request of the URL followed by a message and a sleep of the fixed backoff
  \<^verbatim>\<open>REQUEST_DELAY * 2\<close>, then one more request of the URL (followed by a sleep of
  \<^verbatim>\<open>REQUEST_DELAY\<close> unless the response is the boundary status). So the backoff sleep
  lies between each failed attempt and the next attempt.
\<close>

theorem blocking_get_retries_until_accepted:
  "((\<forall>n. transient_failure allow (session_get e u (clock st + n))) \<longrightarrow>
      blocking_get e u allow st = None)
   \<and> (\<forall>r st'. blocking_get e u allow st = Some (Inr r, st') \<longrightarrow>
         accepted allow r \<and> (\<exists>n. session_get e u (clock st + n) = Response r))
   \<and> (\<forall>n r. (\<forall>i<n. transient_failure allow (session_get e u (clock st + i)))
           \<and> session_get e u (clock st + n) = Response r \<and> accepted allow r \<longrightarrow>
         (\<exists>st' messages. blocking_get e u allow st = Some (Inr r, st') \<and>
            length messages = n \<and>
            trace st' = trace st @ concat (map (failed_attempt u) messages)
              @ accepted_attempt u allow r))"
proof (intro conjI allI impI)
  assume "\<forall>n. transient_failure allow (session_get e u (clock st + n))"
  then show "blocking_get e u allow st = None" by (rule blocking_get_dead)
next
  fix r st' assume g: "blocking_get e u allow st = Some (Inr r, st')"
  from blocking_get_returns[OF g] show "accepted allow r" by simp
  from blocking_get_returns[OF g]
  show "\<exists>n. session_get e u (clock st + n) = Response r" by simp
next
  fix n r
  assume h: "(\<forall>i<n. transient_failure allow (session_get e u (clock st + i)))
           \<and> session_get e u (clock st + n) = Response r \<and> accepted allow r"
  then show "\<exists>st' messages. blocking_get e u allow st = Some (Inr r, st') \<and>
            length messages = n \<and>
            trace st' = trace st @ concat (map (failed_attempt u) messages)
              @ accepted_attempt u allow r"
    using blocking_get_attempts[of n allow e u st r] by simp
qed

text \<open>
  Witness for C1: a server that always times out, and one that times out, answers 503
  and then answers 200.
\<close>

theorem blocking_get_retries_witness:
  "(\<forall>n. transient_failure False (session_get (example_env dead_get) SERIES_INDEX (clock st0 + n)))
   \<and> blocking_get (example_env dead_get) SERIES_INDEX False st0 = None
   \<and> (\<exists>st' m1 m2. blocking_get (example_env flaky_get) SERIES_INDEX False st0 = Some (Inr ok_page, st')
         \<and> trace st' =
             [Print (''[GET] '' @ SERIES_INDEX), Get SERIES_INDEX, Print m1, Sleep 5000,
              Print (''[GET] '' @ SERIES_INDEX), Get SERIES_INDEX, Print m2, Sleep 5000,
              Print (''[GET] '' @ SERIES_INDEX), Get SERIES_INDEX, Sleep 2500])
   \<and> accepted False ok_page"
proof -
  have d: "\<forall>n. transient_failure False (session_get (example_env dead_get) SERIES_INDEX (clock st0 + n))"
    by (simp add: example_env_def dead_get_def transient_failure_def)
  have none: "blocking_get (example_env dead_get) SERIES_INDEX False st0 = None"
    using blocking_get_retries_until_accepted[of False "example_env dead_get" SERIES_INDEX st0] d
    by simp
  have c0: "clock st0 = 0" by (simp add: clock_def st0_def)
  have a: "accepted False ok_page"
    by (simp add: accepted_def ok_page_def raises_HTTPError_def)
  have f: "\<forall>i<2. transient_failure False (session_get (example_env flaky_get) SERIES_INDEX (clock st0 + i))"
    by (simp add: c0 example_env_def flaky_get_def transient_failure_def raises_HTTPError_def
        less_Suc_eq numeral_2_eq_2)
  have r: "session_get (example_env flaky_get) SERIES_INDEX (clock st0 + 2) = Response ok_page"
    by (simp add: c0 example_env_def flaky_get_def)
  have "\<exists>st' messages. blocking_get (example_env flaky_get) SERIES_INDEX False st0 = Some (Inr ok_page, st') \<and>
            length messages = 2 \<and>
            trace st' = trace st0 @ concat (map (failed_attempt SERIES_INDEX) messages)
              @ accepted_attempt SERIES_INDEX False ok_page"
    using blocking_get_retries_until_accepted[of False "example_env flaky_get" SERIES_INDEX st0] f r a
    by blast
  then obtain st' messages where
    g: "blocking_get (example_env flaky_get) SERIES_INDEX False st0 = Some (Inr ok_page, st')" and
    l: "length messages = 2" and
    t: "trace st' = trace st0 @ concat (map (failed_attempt SERIES_INDEX) messages)
              @ accepted_attempt SERIES_INDEX False ok_page"
    by blast
  from l obtain m1 m2 where m: "messages = [m1, m2]"
    by (auto simp: numeral_2_eq_2 length_Suc_conv)
  from t have t': "trace st' =
             [Print (''[GET] '' @ SERIES_INDEX), Get SERIES_INDEX, Print m1, Sleep 5000,
              Print (''[GET] '' @ SERIES_INDEX), Get SERIES_INDEX, Print m2, Sleep 5000,
              Print (''[GET] '' @ SERIES_INDEX), Get SERIES_INDEX, Sleep 2500]"
    unfolding m by (simp add: st0_def failed_attempt_def accepted_attempt_def REQUEST_DELAY_def)
  from g t' have "\<exists>st' m1 m2. blocking_get (example_env flaky_get) SERIES_INDEX False st0 = Some (Inr ok_page, st')
         \<and> trace st' =
             [Print (''[GET] '' @ SERIES_INDEX), Get SERIES_INDEX, Print m1, Sleep 5000,
              Print (''[GET] '' @ SERIES_INDEX), Get SERIES_INDEX, Print m2, Sleep 5000,
              Print (''[GET] '' @ SERIES_INDEX), Get SERIES_INDEX, Sleep 2500]"
    by - (rule exI[of _ st'], rule exI[of _ m1], rule exI[of _ m2], simp)
  with d none a show ?thesis by (intro conjI)
qed

subsection \<open>C2, C4, C10: the series index walk\<close>

lemma merge_batch_first_seen:
  "merge_batch batch (all_series, seen) =
    (all_series @ first_seen (filter (\<lambda>t. url t \<notin> seen) batch), seen \<union> url ` set batch)"
proof (induction batch arbitrary: all_series seen)
  case Nil
  then show ?case by simp
next
  case (Cons s batch)
  have f: "filter (\<lambda>t. url t \<noteq> url s) (filter (\<lambda>t. url t \<notin> seen) batch)
         = filter (\<lambda>t. url t \<notin> insert (url s) seen) batch"
    by (induction batch) auto
  show ?case
  proof (cases "url s \<in> seen")
    case True
    then show ?thesis using Cons.IH[of all_series seen] by auto
  next
    case False
    then show ?thesis using Cons.IH[of "all_series @ [s]" "insert (url s) seen"] f by auto
  qed
qed

lemma first_seen_append:
  "first_seen (xs @ ys) = first_seen xs @ first_seen (filter (\<lambda>t. url t \<notin> url ` set xs) ys)"
proof (induction xs arbitrary: ys rule: first_seen.induct)
  case 1
  then show ?case by simp
next
  case (2 s ss)
  let ?ne = "\<lambda>t. url t \<noteq> url s"
  have f: "filter (\<lambda>t. url t \<notin> url ` set (filter ?ne ss)) (filter ?ne ys)
         = filter (\<lambda>t. url t \<notin> url ` set (s # ss)) ys"
    by (rule trans[OF filter_filter]) (rule filter_cong, auto)
  have "first_seen ((s # ss) @ ys) = s # first_seen (filter ?ne ss @ filter ?ne ys)"
    by simp
  also have "\<dots> = s # first_seen (filter ?ne ss)
      @ first_seen (filter (\<lambda>t. url t \<notin> url ` set (filter ?ne ss)) (filter ?ne ys))"
    using "2.IH"[of "filter ?ne ys"] by simp
  finally show ?case unfolding f by simp
qed

lemma merge_pages_first_seen:
  "merge_pages batches (all_series, seen) =
    (all_series @ first_seen (filter (\<lambda>t. url t \<notin> seen) (concat batches)),
     seen \<union> url ` set (concat batches))"
proof (induction batches arbitrary: all_series seen)
  case Nil
  then show ?case by simp
next
  case (Cons b bs)
  let ?new = "filter (\<lambda>t. url t \<notin> seen) b"
  have f: "filter (\<lambda>t. url t \<notin> url ` set ?new) (filter (\<lambda>t. url t \<notin> seen) (concat bs))
         = filter (\<lambda>t. url t \<notin> seen \<union> url ` set b) (concat bs)"
    by (rule trans[OF filter_filter]) (rule filter_cong, auto)
  have "first_seen (filter (\<lambda>t. url t \<notin> seen) (concat (b # bs)))
      = first_seen ?new @ first_seen (filter (\<lambda>t. url t \<notin> seen \<union> url ` set b) (concat bs))"
    using first_seen_append[of ?new "filter (\<lambda>t. url t \<notin> seen) (concat bs)"] f by simp
  then show ?case
    using Cons.IH[of "all_series @ first_seen ?new" "seen \<union> url ` set b"]
    by (simp add: merge_batch_first_seen Un_assoc image_Un)
qed

lemma set_first_seen: "url ` set (first_seen ys) = url ` set ys"
proof (induction ys rule: first_seen.induct)
  case 1
  then show ?case by simp
next
  case (2 s ss)
  then show ?case by auto
qed

lemma distinct_first_seen: "distinct (map url (first_seen ys))"
proof (induction ys rule: first_seen.induct)
  case 1
  then show ?case by simp
next
  case (2 s ss)
  have "url s \<notin> url ` set (first_seen (filter (\<lambda>t. url t \<noteq> url s) ss))"
    unfolding set_first_seen by auto
  with 2 show ?case by simp
qed

lemma find_filter_implied:
  "(\<And>x. P x \<Longrightarrow> Q x) \<Longrightarrow> List.find P (filter Q xs) = List.find P xs"
  by (induction xs) auto

lemma find_first_seen:
  "List.find (\<lambda>t. url t = u) (first_seen ys) = List.find (\<lambda>t. url t = u) ys"
proof (induction ys rule: first_seen.induct)
  case 1
  then show ?case by simp
next
  case (2 s ss)
  show ?case
  proof (cases "url s = u")
    case True
    then show ?thesis by simp
  next
    case False
    then have "List.find (\<lambda>t. url t = u) (filter (\<lambda>t. url t \<noteq> url s) ss)
             = List.find (\<lambda>t. url t = u) ss"
      by (intro find_filter_implied) auto
    with 2 False show ?thesis by simp
  qed
qed

lemma merge_batch_unique:
  assumes "unique_by_url (all_series, seen)"
  shows "unique_by_url (merge_batch batch (all_series, seen))"
  using assms
proof (induction batch arbitrary: all_series seen)
  case Nil
  then show ?case by simp
next
  case (Cons s batch)
  show ?case
  proof (cases "url s \<in> seen")
    case True
    with Cons show ?thesis by simp
  next
    case False
    with Cons.prems have "unique_by_url (all_series @ [s], insert (url s) seen)"
      by (auto simp: unique_by_url_def)
    from Cons.IH[OF this] False show ?thesis by simp
  qed
qed


lemma probes_append:
  "probes f i (ks @ ls) = probes f i ks @ probes f (i + length ks) ls"
  by (induction ks arbitrary: i) auto

lemma set_probes: "set (probes f i ks) \<subseteq> f ` {i..<i + length ks}"
proof (induction ks arbitrary: i)
  case Nil
  then show ?case by simp
next
  case (Cons k ks)
  have "f ` {Suc i..<Suc i + length ks} \<subseteq> f ` {i..<i + length (k # ks)}"
    by (intro image_mono) auto
  moreover have "f i \<in> f ` {i..<i + length (k # ks)}" by simp
  ultimately show ?case using Cons[of "Suc i"] by auto
qed

lemma get_series_from_page_frame:
  assumes "get_series_from_page e page st = Some (res, st1)"
  shows "outfile st1 = outfile st \<and> ran (trace st1) = ran (trace st) \<and>
    (\<exists>k. requested (trace st1) = requested (trace st) @ replicate (Suc k) (index_url page))"
proof -
  from assms obtain y where
    g: "blocking_get e (index_url page) True st = Some y" and s: "snd y = st1"
    by (auto simp: get_series_from_page_def split: option.splits sum.splits if_splits)
  from blocking_get_frame[OF g] s obtain evs k where
    "outfile st1 = outfile st" and t: "trace st1 = trace st @ evs" and
    "requested evs = replicate (Suc k) (index_url page)" and "ran evs = []"
    by auto
  then show ?thesis by (simp add: requested_append ran_append)
qed

lemma index_loop_stop:
  assumes "get_series_from_page e page st = Some (Inr None, st1)"
  shows "index_loop e page all_series seen st = Some (Inr all_series, st1)"
  by (rule trans[OF index_loop.simps]) (simp add: assms)

lemma index_loop_step:
  assumes "get_series_from_page e page st = Some (Inr (Some batch), st1)"
  shows "index_loop e page all_series seen st =
    index_loop e (page + 1) (fst (merge_batch batch (all_series, seen)))
      (snd (merge_batch batch (all_series, seen))) st1"
  by (rule trans[OF index_loop.simps]) (simp add: assms)

lemma fetch_pages_Suc:
  assumes "fetch_pages e (Suc n) page st = Some (bs, st')"
  obtains batch rest st1 where
    "get_series_from_page e page st = Some (Inr (Some batch), st1)"
    "fetch_pages e n (page + 1) st1 = Some (rest, st')" "bs = batch # rest"
  using assms by (auto split: option.splits sum.splits prod.splits)

lemma fetch_pages_loop:
  assumes "fetch_pages e n page st = Some (batches, st1)"
  shows "index_loop e page all_series seen st =
    index_loop e (page + n) (fst (merge_pages batches (all_series, seen)))
      (snd (merge_pages batches (all_series, seen))) st1"
  using assms
proof (induction n arbitrary: page st batches all_series seen)
  case 0
  then show ?case by simp
next
  case (Suc n)
  from Suc.prems obtain batch rest st2 where
    g: "get_series_from_page e page st = Some (Inr (Some batch), st2)" and
    f: "fetch_pages e n (page + 1) st2 = Some (rest, st1)" and b: "batches = batch # rest"
    by (rule fetch_pages_Suc)
  let ?m = "merge_batch batch (all_series, seen)"
  have "index_loop e page all_series seen st = index_loop e (page + 1) (fst ?m) (snd ?m) st2"
    by (rule index_loop_step[OF g])
  also have "\<dots> = index_loop e (page + 1 + n) (fst (merge_pages rest (fst ?m, snd ?m)))
      (snd (merge_pages rest (fst ?m, snd ?m))) st1"
    by (rule Suc.IH[OF f])
  finally show ?case by (simp add: b)
qed

lemma fetch_pages_frame:
  assumes "fetch_pages e n page st = Some (batches, st1)"
  shows "outfile st1 = outfile st \<and> ran (trace st1) = ran (trace st) \<and> length batches = n \<and>
    (\<exists>ks. length ks = n \<and>
       requested (trace st1) = requested (trace st) @ probes index_url page ks)"
  using assms
proof (induction n arbitrary: page st batches)
  case 0
  then show ?case by simp
next
  case (Suc n)
  from Suc.prems obtain batch rest st2 where
    g: "get_series_from_page e page st = Some (Inr (Some batch), st2)" and
    f: "fetch_pages e n (page + 1) st2 = Some (rest, st1)" and b: "batches = batch # rest"
    by (rule fetch_pages_Suc)
  from get_series_from_page_frame[OF g] obtain k where
    o: "outfile st2 = outfile st" and r: "ran (trace st2) = ran (trace st)" and
    q: "requested (trace st2) = requested (trace st) @ replicate (Suc k) (index_url page)"
    by auto
  from Suc.IH[OF f] obtain ks where
    o': "outfile st1 = outfile st2" and r': "ran (trace st1) = ran (trace st2)" and
    l: "length rest = n" and lk: "length ks = n" and
    q': "requested (trace st1) = requested (trace st2) @ probes index_url (page + 1) ks"
    by auto
  have "length (k # ks) = Suc n \<and>
      requested (trace st1) = requested (trace st) @ probes index_url page (k # ks)"
    using q q' lk by simp
  then have "\<exists>ks. length ks = Suc n \<and>
      requested (trace st1) = requested (trace st) @ probes index_url page ks"
    by (rule exI)
  with o o' r r' l b show ?case by simp
qed

lemma index_loop_complete:
  assumes "index_loop e page all_series seen st = Some y"
  shows "\<forall>xs st'. y = (Inr xs, st') \<longrightarrow>
    (\<exists>n batches st1. fetch_pages e n page st = Some (batches, st1) \<and>
       get_series_from_page e (page + n) st1 = Some (Inr None, st') \<and>
       xs = fst (merge_pages batches (all_series, seen)))"
proof (rule index_loop.raw_induct
    [where P = "\<lambda>e page all_series seen st y. \<forall>xs st'. y = (Inr xs, st') \<longrightarrow>
    (\<exists>n batches st1. fetch_pages e n page st = Some (batches, st1) \<and>
       get_series_from_page e (page + n) st1 = Some (Inr None, st') \<and>
       xs = fst (merge_pages batches (all_series, seen)))", OF _ assms], goal_cases)
  case (1 loop e page all_series seen st y)
  note IH = 1(1) and body = 1(2)
  show ?case
  proof (intro allI impI)
    fix xs st' assume y: "y = (Inr xs, st')"
    from body y consider
      (stop) "get_series_from_page e page st = Some (Inr None, st')" "xs = all_series"
    | (step) batch st2 where "get_series_from_page e page st = Some (Inr (Some batch), st2)"
        "loop e (page + 1) (fst (merge_batch batch (all_series, seen)))
           (snd (merge_batch batch (all_series, seen))) st2 = Some (Inr xs, st')"
      by (auto split: option.splits sum.splits prod.splits)
    then show "\<exists>n batches st1. fetch_pages e n page st = Some (batches, st1) \<and>
       get_series_from_page e (page + n) st1 = Some (Inr None, st') \<and>
       xs = fst (merge_pages batches (all_series, seen))"
    proof cases
      case stop
      then have "fetch_pages e 0 page st = Some ([], st) \<and>
         get_series_from_page e (page + 0) st = Some (Inr None, st') \<and>
         xs = fst (merge_pages [] (all_series, seen))"
        by simp
      then show ?thesis by blast
    next
      case step
      from IH[OF step(2)] obtain n batches st1 where
        f: "fetch_pages e n (page + 1) st2 = Some (batches, st1)" and
        g: "get_series_from_page e (page + 1 + n) st1 = Some (Inr None, st')" and
        x: "xs = fst (merge_pages batches (merge_batch batch (all_series, seen)))"
        by auto
      have "fetch_pages e (Suc n) page st = Some (batch # batches, st1) \<and>
         get_series_from_page e (page + Suc n) st1 = Some (Inr None, st') \<and>
         xs = fst (merge_pages (batch # batches) (all_series, seen))"
        using step(1) f g x by simp
      then show ?thesis by blast
    qed
  qed
qed


lemma scrape_all_series_Inr:
  assumes "scrape_all_series e st = Some (Inr xs, st')"
  obtains st2 where
    "index_loop e 1 [] {} (emit (Print ''--- Finding all Series ---'') st) = Some (Inr xs, st2)"
    "requested (trace st') = requested (trace st2)"
  using assms
  by (auto simp: scrape_all_series_def trace_emit requested_append
      split: option.splits sum.splits prod.splits)

lemma scrape_all_series_walk:
  assumes "scrape_all_series e st = Some (Inr xs, st')"
  shows "\<exists>n batches st1.
     fetch_pages e n 1 (emit (Print ''--- Finding all Series ---'') st) = Some (batches, st1) \<and>
     (\<exists>st2. get_series_from_page e (Suc n) st1 = Some (Inr None, st2)) \<and>
     xs = first_seen (concat batches)"
proof -
  from assms obtain st2 where
    l: "index_loop e 1 [] {} (emit (Print ''--- Finding all Series ---'') st) = Some (Inr xs, st2)"
    by (rule scrape_all_series_Inr)
  from index_loop_complete[OF l] obtain n batches st1 where
    f: "fetch_pages e n 1 (emit (Print ''--- Finding all Series ---'') st) = Some (batches, st1)" and
    g: "get_series_from_page e (1 + n) st1 = Some (Inr None, st2)" and
    x: "xs = fst (merge_pages batches ([], {}))"
    by auto
  from x have "xs = first_seen (concat batches)"
    by (simp add: merge_pages_first_seen)
  with f g show ?thesis by (intro exI[of _ n] exI[of _ batches] exI[of _ st1] conjI exI[of _ st2]) simp_all
qed

lemma distinct_map_count:
  "distinct (map f xs) \<Longrightarrow> u \<in> f ` set xs \<Longrightarrow> length (filter (\<lambda>t. f t = u) xs) = 1"
proof (induction xs)
  case Nil
  then show ?case by simp
next
  case (Cons x xs)
  show ?case
  proof (cases "f x = u")
    case True
    with Cons.prems have "filter (\<lambda>t. f t = u) xs = []"
      by (force simp: filter_empty_conv image_iff)
    with True show ?thesis by simp
  next
    case False
    with Cons show ?thesis by auto
  qed
qed

text \<open>
  Claim C2. When the index pages \<open>1, \<dots>, n\<close> have been fetched and the fetch of page
  \<open>n + 1\<close> returns a response with status 400, \<^verbatim>\<open>scrape_all_series\<close> returns normally the
  list merged from the \<open>n\<close> earlier batches, nothing more; the requests it made are those
  of pages \<open>1, \<dots>, n + 1\<close> in this order (each with its retries), so no index page after
  the boundary page is fetched.
\<close>

theorem boundary_status_ends_index_walk:
  assumes "fetch_pages e n 1 (emit (Print ''--- Finding all Series ---'') st) = Some (batches, st1)"
    and "blocking_get e (index_url (Suc n)) True st1 = Some (Inr r, st2)"
    and "status_code r = 400"
  shows "\<exists>st'. scrape_all_series e st = Some (Inr (fst (merge_pages batches ([], {}))), st') \<and>
    (\<exists>ks k. length ks = n \<and>
       requested (trace st') = requested (trace st) @ probes index_url 1 (ks @ [k])) \<and>
    set (requested (trace st')) \<subseteq> set (requested (trace st)) \<union> index_url ` {1..Suc n}"
proof -
  let ?st0 = "emit (Print ''--- Finding all Series ---'') st"
  let ?xs = "fst (merge_pages batches ([], {}))"
  let ?st' = "emit (Print (''Total Series Found: '' @ show_nat (length ?xs) @ ''\<newline>'')) st2"
  have g: "get_series_from_page e (Suc n) st1 = Some (Inr None, st2)"
    using assms(2,3) by (simp add: get_series_from_page_def)
  have "index_loop e 1 [] {} ?st0 =
      index_loop e (1 + n) ?xs (snd (merge_pages batches ([], {}))) st1"
    by (rule fetch_pages_loop[OF assms(1)])
  also have "\<dots> = Some (Inr ?xs, st2)"
    using g by (simp add: index_loop_stop)
  finally have res: "scrape_all_series e st = Some (Inr ?xs, ?st')"
    by (simp add: scrape_all_series_def)
  from fetch_pages_frame[OF assms(1)] obtain ks where
    lk: "length ks = n" and
    q1: "requested (trace st1) = requested (trace ?st0) @ probes index_url 1 ks"
    by auto
  from get_series_from_page_frame[OF g] obtain k where
    q2: "requested (trace st2) = requested (trace st1) @ replicate (Suc k) (index_url (Suc n))"
    by auto
  have q: "requested (trace ?st') = requested (trace st) @ probes index_url 1 (ks @ [k])"
    using q1 q2 lk by (simp add: trace_emit requested_append probes_append)
  have "set (probes index_url 1 (ks @ [k])) \<subseteq> index_url ` {1..<1 + length (ks @ [k])}"
    by (rule set_probes)
  also have "{1..<1 + length (ks @ [k])} = {1..Suc n}"
    using lk by auto
  finally have sub: "set (requested (trace ?st')) \<subseteq>
      set (requested (trace st)) \<union> index_url ` {1..Suc n}"
    unfolding q by auto
  from lk q have "\<exists>ks k. length ks = n \<and>
       requested (trace ?st') = requested (trace st) @ probes index_url 1 (ks @ [k])"
    by (intro exI[of _ ks] exI[of _ k] conjI)
  with res sub show ?thesis by (intro exI[of _ ?st'] conjI)
qed

text \<open>Witness for C2: on the small catalogue the walk ends at page 3 with shows A, B, C.\<close>

theorem boundary_status_ends_index_walk_witness:
  "status_code boundary_page = 400 \<and>
   (\<exists>st'. scrape_all_series site_env st0 = Some (Inr [show_a, show_b, show_c], st') \<and>
     (\<exists>ks k. length ks = 2 \<and>
        requested (trace st') = requested (trace st0) @ probes index_url 1 (ks @ [k])) \<and>
     set (requested (trace st')) \<subseteq> set (requested (trace st0)) \<union> index_url ` {1..Suc 2})"
proof -
  let ?F = "fetch_pages site_env 2 1 (emit (Print ''--- Finding all Series ---'') st0)"
  let ?G = "blocking_get site_env (index_url (Suc 2)) True (snd (the ?F))"
  have f: "?F = Some (site_batches, snd (the ?F))" by code_simp
  have g: "?G = Some (Inr boundary_page, snd (the ?G))" by code_simp
  have s: "status_code boundary_page = 400" by (simp add: boundary_page_def)
  have m: "fst (merge_pages site_batches ([], {})) = [show_a, show_b, show_c]" by code_simp
  from boundary_status_ends_index_walk[OF f g s] s show ?thesis
    unfolding m by (intro conjI)
qed


lemma site_scrape_all_series:
  "scrape_all_series site_env st0 =
    Some (Inr [show_a, show_b, show_c], snd (the (scrape_all_series site_env st0)))"
  by code_simp

lemma scrape_all_series_boundary:
  assumes "fetch_pages e n 1 (emit (Print ''--- Finding all Series ---'') st) = Some (batches, st1)"
    and "blocking_get e (index_url (Suc n)) True st1 = Some (Inr r, st2)"
    and "status_code r = 400"
  shows "scrape_all_series e st =
    Some (Inr (fst (merge_pages batches ([], {}))),
      emit (Print (''Total Series Found: ''
        @ show_nat (length (fst (merge_pages batches ([], {})))) @ ''\<newline>'')) st2)"
proof -
  let ?st0 = "emit (Print ''--- Finding all Series ---'') st"
  let ?xs = "fst (merge_pages batches ([], {}))"
  have g: "get_series_from_page e (Suc n) st1 = Some (Inr None, st2)"
    using assms(2,3) by (simp add: get_series_from_page_def)
  have "index_loop e 1 [] {} ?st0 =
      index_loop e (1 + n) ?xs (snd (merge_pages batches ([], {}))) st1"
    by (rule fetch_pages_loop[OF assms(1)])
  also have "\<dots> = Some (Inr ?xs, st2)"
    using g by (simp add: index_loop_stop)
  finally show ?thesis
    by (simp add: scrape_all_series_def)
qed

lemma merge_pages_unique:
  "unique_by_url acc \<Longrightarrow> unique_by_url (merge_pages batches acc)"
proof (induction batches arbitrary: acc)
  case Nil
  then show ?case by simp
next
  case (Cons b bs)
  obtain all_series seen where a: "acc = (all_series, seen)" by (cases acc)
  from Cons.prems have "unique_by_url (merge_batch b acc)"
    unfolding a by (rule merge_batch_unique)
  then show ?case by (simp add: Cons.IH)
qed

lemma first_seen_once:
  assumes "s \<in> set ys"
  shows "length (filter (\<lambda>t. url t = url s) (first_seen ys)) = 1"
proof -
  from assms have "url s \<in> url ` set (first_seen ys)" unfolding set_first_seen by simp
  with distinct_first_seen show ?thesis by (rule distinct_map_count)
qed

text \<open>
  Claim C4. No two entries of the merged series list share a URL. The pair of the list
  and the set of seen URLs is \<open>unique_by_url\<close> at the start and after every per-page merge
  step. When the index pages \<open>1, \<dots>, n\<close> have been fetched and page \<open>n + 1\<close> answers with
  the boundary status, \<^verbatim>\<open>scrape_all_series\<close> returns a list whose URLs are distinct and
  in which every URL found on any of the fetched pages occurs exactly once, however
  often the pages repeat it; the accumulator after each of the \<open>n\<close> merge steps is
  \<open>unique_by_url\<close>. And whatever list \<^verbatim>\<open>scrape_all_series\<close> returns has distinct URLs.
\<close>

theorem merged_series_unique_by_url:
  "unique_by_url ([], {})
   \<and> (unique_by_url (all_series, seen) \<longrightarrow> unique_by_url (merge_batch batch (all_series, seen)))
   \<and> (fetch_pages e n 1 (emit (Print ''--- Finding all Series ---'') st) = Some (batches, st1) \<and>
      blocking_get e (index_url (Suc n)) True st1 = Some (Inr r, st2) \<and> status_code r = 400 \<longrightarrow>
        (\<exists>xs st'. scrape_all_series e st = Some (Inr xs, st') \<and>
           distinct (map url xs) \<and>
           (\<forall>b\<in>set batches. \<forall>s\<in>set b. length (filter (\<lambda>t. url t = url s) xs) = 1) \<and>
           (\<forall>k\<le>n. unique_by_url (merge_pages (take k batches) ([], {})))))
   \<and> (\<forall>xs st'. scrape_all_series e st = Some (Inr xs, st') \<longrightarrow> distinct (map url xs))"
proof (intro conjI allI impI)
  show u0: "unique_by_url ([], {})" by (simp add: unique_by_url_def)
  {
    assume "unique_by_url (all_series, seen)"
    then show "unique_by_url (merge_batch batch (all_series, seen))" by (rule merge_batch_unique)
  }
  {
    fix xs st' assume r: "scrape_all_series e st = Some (Inr xs, st')"
    from scrape_all_series_walk[OF r] obtain n batches st1 where
      x: "xs = first_seen (concat batches)"
      by auto
    show "distinct (map url xs)" unfolding x by (rule distinct_first_seen)
  }
  assume h: "fetch_pages e n 1 (emit (Print ''--- Finding all Series ---'') st) = Some (batches, st1) \<and>
      blocking_get e (index_url (Suc n)) True st1 = Some (Inr r, st2) \<and> status_code r = 400"
  let ?xs = "fst (merge_pages batches ([], {}))"
  let ?st' = "emit (Print (''Total Series Found: '' @ show_nat (length ?xs) @ ''\<newline>'')) st2"
  from h have h1: "fetch_pages e n 1 (emit (Print ''--- Finding all Series ---'') st) = Some (batches, st1)"
    and h2: "blocking_get e (index_url (Suc n)) True st1 = Some (Inr r, st2)"
    and h3: "status_code r = 400"
    by simp_all
  have res: "scrape_all_series e st = Some (Inr ?xs, ?st')"
    by (rule scrape_all_series_boundary[OF h1 h2 h3])
  have x: "?xs = first_seen (concat batches)" by (simp add: merge_pages_first_seen)
  have d: "distinct (map url ?xs)" unfolding x by (rule distinct_first_seen)
  have c: "\<forall>b\<in>set batches. \<forall>s\<in>set b. length (filter (\<lambda>t. url t = url s) ?xs) = 1"
  proof (intro ballI)
    fix b s assume "b \<in> set batches" "s \<in> set b"
    then have "s \<in> set (concat batches)" by auto
    then show "length (filter (\<lambda>t. url t = url s) ?xs) = 1"
      unfolding x by (rule first_seen_once)
  qed
  have k: "\<forall>k\<le>n. unique_by_url (merge_pages (take k batches) ([], {}))"
    using u0 by (simp add: merge_pages_unique)
  from res d c k show "\<exists>xs st'. scrape_all_series e st = Some (Inr xs, st') \<and>
           distinct (map url xs) \<and>
           (\<forall>b\<in>set batches. \<forall>s\<in>set b. length (filter (\<lambda>t. url t = url s) xs) = 1) \<and>
           (\<forall>k\<le>n. unique_by_url (merge_pages (take k batches) ([], {})))"
    by - (rule exI[of _ ?xs], rule exI[of _ ?st'], simp)
qed

text \<open>
  Witness for C4: one merge step from a list that already holds show A, and the whole
  walk of the small catalogue, whose pages list show A twice: the walk returns the list
  of shows A, B, C, in which the URL of show A occurs once.
\<close>

theorem merged_series_unique_by_url_witness:
  "unique_by_url ([show_a], {url show_a})
   \<and> unique_by_url (merge_batch [show_a, show_b] ([show_a], {url show_a}))
   \<and> (\<exists>st'. scrape_all_series site_env st0 = Some (Inr [show_a, show_b, show_c], st'))
   \<and> distinct (map url [show_a, show_b, show_c])
   \<and> show_a \<in> set (site_batches ! 0)
   \<and> show_a\<lparr>title := ''Show A again''\<rparr> \<in> set (site_batches ! 1)
   \<and> length (filter (\<lambda>t. url t = url show_a) [show_a, show_b, show_c]) = 1
   \<and> unique_by_url (merge_pages (take 1 site_batches) ([], {}))"
proof -
  have u: "unique_by_url ([show_a], {url show_a})" by (simp add: unique_by_url_def)
  let ?F = "fetch_pages site_env 2 1 (emit (Print ''--- Finding all Series ---'') st0)"
  let ?G = "blocking_get site_env (index_url (Suc 2)) True (snd (the ?F))"
  have f: "?F = Some (site_batches, snd (the ?F))" by code_simp
  have g: "?G = Some (Inr boundary_page, snd (the ?G))" by code_simp
  have s: "status_code boundary_page = 400" by (simp add: boundary_page_def)
  note t = merged_series_unique_by_url[of "[show_a]" "{url show_a}" "[show_a, show_b]"
      site_env 2 st0 site_batches "snd (the ?F)" boundary_page "snd (the ?G)"]
  from t u have m: "unique_by_url (merge_batch [show_a, show_b] ([show_a], {url show_a}))"
    by blast
  from f g s have h: "?F = Some (site_batches, snd (the ?F)) \<and>
      ?G = Some (Inr boundary_page, snd (the ?G)) \<and> status_code boundary_page = 400"
    by (intro conjI)
  from t[THEN conjunct2, THEN conjunct2, THEN conjunct1, rule_format, OF h]
  obtain xs st' where
    r: "scrape_all_series site_env st0 = Some (Inr xs, st')" and
    d: "distinct (map url xs)" and
    c: "\<forall>b\<in>set site_batches. \<forall>s\<in>set b. length (filter (\<lambda>t. url t = url s) xs) = 1" and
    k: "\<forall>k\<le>2. unique_by_url (merge_pages (take k site_batches) ([], {}))"
    by blast
  from r site_scrape_all_series have x: "xs = [show_a, show_b, show_c]" by simp
  have i0: "show_a \<in> set (site_batches ! 0)" by (simp add: site_batches_def)
  have i1: "show_a\<lparr>title := ''Show A again''\<rparr> \<in> set (site_batches ! 1)"
    by (simp add: site_batches_def)
  have b0: "site_batches ! 0 \<in> set site_batches" by (simp add: site_batches_def)
  from c b0 i0 have l: "length (filter (\<lambda>t. url t = url show_a) xs) = 1" by blast
  from k have k1: "unique_by_url (merge_pages (take 1 site_batches) ([], {}))" by simp
  from r x have "\<exists>st'. scrape_all_series site_env st0 = Some (Inr [show_a, show_b, show_c], st')"
    by - (rule exI[of _ st'], simp)
  with u m d l i0 i1 k1 show ?thesis unfolding x by (intro conjI)
qed

text \<open>
  Claim C10. When the index pages \<open>1, \<dots>, n\<close> have been fetched and page \<open>n + 1\<close> answers
  with the boundary status, the list that \<^verbatim>\<open>scrape_all_series\<close> returns is the
  concatenation of the fetched batches with every entry dropped whose URL an earlier
  entry already has (\<open>first_seen\<close>): entries stay in first-seen order, and for every URL
  the entry that survives is the first one discovered with that URL, title included.
  And whatever list \<^verbatim>\<open>scrape_all_series\<close> returns is of this form.
\<close>

theorem first_discovered_entry_survives:
  "(fetch_pages e n 1 (emit (Print ''--- Finding all Series ---'') st) = Some (batches, st1) \<and>
    blocking_get e (index_url (Suc n)) True st1 = Some (Inr r, st2) \<and> status_code r = 400 \<longrightarrow>
      (\<exists>xs st'. scrape_all_series e st = Some (Inr xs, st') \<and>
         xs = first_seen (concat batches) \<and>
         (\<forall>u. List.find (\<lambda>t. url t = u) xs = List.find (\<lambda>t. url t = u) (concat batches))))
   \<and> (\<forall>xs st'. scrape_all_series e st = Some (Inr xs, st') \<longrightarrow>
       (\<exists>n batches st1.
          fetch_pages e n 1 (emit (Print ''--- Finding all Series ---'') st) = Some (batches, st1) \<and>
          (\<exists>st2. get_series_from_page e (Suc n) st1 = Some (Inr None, st2)) \<and>
          xs = first_seen (concat batches) \<and>
          (\<forall>u. List.find (\<lambda>t. url t = u) xs = List.find (\<lambda>t. url t = u) (concat batches))))"
proof (intro conjI allI impI)
  assume h: "fetch_pages e n 1 (emit (Print ''--- Finding all Series ---'') st) = Some (batches, st1) \<and>
    blocking_get e (index_url (Suc n)) True st1 = Some (Inr r, st2) \<and> status_code r = 400"
  let ?xs = "fst (merge_pages batches ([], {}))"
  let ?st' = "emit (Print (''Total Series Found: '' @ show_nat (length ?xs) @ ''\<newline>'')) st2"
  from h have h1: "fetch_pages e n 1 (emit (Print ''--- Finding all Series ---'') st) = Some (batches, st1)"
    and h2: "blocking_get e (index_url (Suc n)) True st1 = Some (Inr r, st2)"
    and h3: "status_code r = 400"
    by simp_all
  have res: "scrape_all_series e st = Some (Inr ?xs, ?st')"
    by (rule scrape_all_series_boundary[OF h1 h2 h3])
  have x: "?xs = first_seen (concat batches)" by (simp add: merge_pages_first_seen)
  have "\<forall>u. List.find (\<lambda>t. url t = u) ?xs = List.find (\<lambda>t. url t = u) (concat batches)"
    unfolding x by (simp add: find_first_seen)
  with res x show "\<exists>xs st'. scrape_all_series e st = Some (Inr xs, st') \<and>
         xs = first_seen (concat batches) \<and>
         (\<forall>u. List.find (\<lambda>t. url t = u) xs = List.find (\<lambda>t. url t = u) (concat batches))"
    by - (rule exI[of _ ?xs], rule exI[of _ ?st'], simp)
next
  fix xs st' assume r: "scrape_all_series e st = Some (Inr xs, st')"
  from scrape_all_series_walk[OF r] obtain n batches st1 where
    f: "fetch_pages e n 1 (emit (Print ''--- Finding all Series ---'') st) = Some (batches, st1)" and
    g: "\<exists>st2. get_series_from_page e (Suc n) st1 = Some (Inr None, st2)" and
    x: "xs = first_seen (concat batches)"
    by auto
  have "\<forall>u. List.find (\<lambda>t. url t = u) xs = List.find (\<lambda>t. url t = u) (concat batches)"
    unfolding x by (simp add: find_first_seen)
  with f g x show "\<exists>n batches st1.
        fetch_pages e n 1 (emit (Print ''--- Finding all Series ---'') st) = Some (batches, st1) \<and>
        (\<exists>st2. get_series_from_page e (Suc n) st1 = Some (Inr None, st2)) \<and>
        xs = first_seen (concat batches) \<and>
        (\<forall>u. List.find (\<lambda>t. url t = u) xs = List.find (\<lambda>t. url t = u) (concat batches))"
    by - (rule exI[of _ n], rule exI[of _ batches], rule exI[of _ st1], simp)
qed

text \<open>
  Witness for C10: the small catalogue lists show A on page 1 and again, under the title
  ``Show A again'', on page 2; the walk returns shows A, B, C, and the entry of show A is
  the one of page 1.
\<close>

theorem first_discovered_entry_survives_witness:
  "(\<exists>st'. scrape_all_series site_env st0 = Some (Inr [show_a, show_b, show_c], st'))
   \<and> concat site_batches = [show_a, show_b, show_a\<lparr>title := ''Show A again''\<rparr>, show_c]
   \<and> [show_a, show_b, show_c] = first_seen (concat site_batches)
   \<and> List.find (\<lambda>t. url t = url show_a) [show_a, show_b, show_c] = Some show_a
   \<and> title show_a \<noteq> ''Show A again''"
proof -
  let ?F = "fetch_pages site_env 2 1 (emit (Print ''--- Finding all Series ---'') st0)"
  let ?G = "blocking_get site_env (index_url (Suc 2)) True (snd (the ?F))"
  have f: "?F = Some (site_batches, snd (the ?F))" by code_simp
  have g: "?G = Some (Inr boundary_page, snd (the ?G))" by code_simp
  have s: "status_code boundary_page = 400" by (simp add: boundary_page_def)
  from f g s have h: "?F = Some (site_batches, snd (the ?F)) \<and>
      ?G = Some (Inr boundary_page, snd (the ?G)) \<and> status_code boundary_page = 400"
    by (intro conjI)
  from first_discovered_entry_survives[of site_env 2 st0 site_batches "snd (the ?F)"
      boundary_page "snd (the ?G)", THEN conjunct1, rule_format, OF h]
  obtain xs st' where
    r: "scrape_all_series site_env st0 = Some (Inr xs, st')" and
    x: "xs = first_seen (concat site_batches)" and
    fi: "\<forall>u. List.find (\<lambda>t. url t = u) xs = List.find (\<lambda>t. url t = u) (concat site_batches)"
    by blast
  from r site_scrape_all_series have x': "xs = [show_a, show_b, show_c]" by simp
  have c: "concat site_batches = [show_a, show_b, show_a\<lparr>title := ''Show A again''\<rparr>, show_c]"
    by (simp add: site_batches_def)
  have "List.find (\<lambda>t. url t = url show_a) (concat site_batches) = Some show_a"
    unfolding c by simp
  with fi have fa: "List.find (\<lambda>t. url t = url show_a) xs = Some show_a" by simp
  have ti: "title show_a \<noteq> ''Show A again''" by (simp add: show_a_def)
  from r x' have "\<exists>st'. scrape_all_series site_env st0 = Some (Inr [show_a, show_b, show_c], st')"
    by - (rule exI[of _ st'], simp)
  with c x fa ti show ?thesis unfolding x' by (intro conjI)
qed

subsection \<open>C3: the season walk of one show\<close>

lemma get_episode_links_frame:
  assumes "get_episode_links e show_url season st = Some (res, st1)"
  shows "outfile st1 = outfile st \<and> ran (trace st1) = ran (trace st) \<and>
    (\<exists>k. requested (trace st1) =
       requested (trace st) @ replicate (Suc k) (season_url show_url season))"
proof -
  from assms obtain y where
    g: "blocking_get e (season_url show_url season) False st = Some y" and s: "snd y = st1"
    by (auto simp: get_episode_links_def split: option.splits sum.splits)
  from blocking_get_frame[OF g] s obtain evs k where
    "outfile st1 = outfile st" and t: "trace st1 = trace st @ evs" and
    "requested evs = replicate (Suc k) (season_url show_url season)" and "ran evs = []"
    by auto
  then show ?thesis by (simp add: requested_append ran_append)
qed

lemma season_loop_stop:
  assumes "get_episode_links e show_url season st = Some (Inr [], st1)"
  shows "season_loop e show_url season all_episodes st = Some (Inr all_episodes, st1)"
  by (rule trans[OF season_loop.simps]) (simp add: assms)

lemma season_loop_step:
  assumes "get_episode_links e show_url season st = Some (Inr episodes, st1)"
    and "episodes \<noteq> []"
  shows "season_loop e show_url season all_episodes st =
    season_loop e show_url (season + 1) (all_episodes @ episodes) st1"
  by (rule trans[OF season_loop.simps]) (simp add: assms)

lemma season_loop_raise:
  assumes "get_episode_links e show_url season st = Some (Inl x, st1)"
  shows "season_loop e show_url season all_episodes st = Some (Inl x, st1)"
  by (rule trans[OF season_loop.simps]) (simp add: assms)

lemma fetch_seasons_Suc:
  assumes "fetch_seasons e show_url (Suc n) season st = Some (ls, st')"
  obtains episodes rest st1 where
    "get_episode_links e show_url season st = Some (Inr episodes, st1)" "episodes \<noteq> []"
    "fetch_seasons e show_url n (season + 1) st1 = Some (rest, st')" "ls = episodes # rest"
  using assms by (auto split: option.splits sum.splits prod.splits if_splits)

lemma fetch_seasons_loop:
  assumes "fetch_seasons e show_url n season st = Some (seasons, st1)"
  shows "season_loop e show_url season all_episodes st =
    season_loop e show_url (season + n) (all_episodes @ concat seasons) st1"
  using assms
proof (induction n arbitrary: season st seasons all_episodes)
  case 0
  then show ?case by simp
next
  case (Suc n)
  from Suc.prems obtain episodes rest st2 where
    g: "get_episode_links e show_url season st = Some (Inr episodes, st2)" and
    ne: "episodes \<noteq> []" and
    f: "fetch_seasons e show_url n (season + 1) st2 = Some (rest, st1)" and
    b: "seasons = episodes # rest"
    by (rule fetch_seasons_Suc)
  have "season_loop e show_url season all_episodes st =
      season_loop e show_url (season + 1) (all_episodes @ episodes) st2"
    by (rule season_loop_step[OF g ne])
  also have "\<dots> = season_loop e show_url (season + 1 + n)
      ((all_episodes @ episodes) @ concat rest) st1"
    by (rule Suc.IH[OF f])
  finally show ?case by (simp add: b)
qed

lemma fetch_seasons_frame:
  assumes "fetch_seasons e show_url n season st = Some (seasons, st1)"
  shows "outfile st1 = outfile st \<and> ran (trace st1) = ran (trace st) \<and>
    length seasons = n \<and> (\<forall>l\<in>set seasons. l \<noteq> []) \<and>
    (\<exists>ks. length ks = n \<and>
       requested (trace st1) = requested (trace st) @ probes (season_url show_url) season ks)"
  using assms
proof (induction n arbitrary: season st seasons)
  case 0
  then show ?case by simp
next
  case (Suc n)
  from Suc.prems obtain episodes rest st2 where
    g: "get_episode_links e show_url season st = Some (Inr episodes, st2)" and
    ne: "episodes \<noteq> []" and
    f: "fetch_seasons e show_url n (season + 1) st2 = Some (rest, st1)" and
    b: "seasons = episodes # rest"
    by (rule fetch_seasons_Suc)
  from get_episode_links_frame[OF g] obtain k where
    o: "outfile st2 = outfile st" and r: "ran (trace st2) = ran (trace st)" and
    q: "requested (trace st2) =
          requested (trace st) @ replicate (Suc k) (season_url show_url season)"
    by auto
  from Suc.IH[OF f] obtain ks where
    o': "outfile st1 = outfile st2" and r': "ran (trace st1) = ran (trace st2)" and
    l: "length rest = n" and nes: "\<forall>l\<in>set rest. l \<noteq> []" and lk: "length ks = n" and
    q': "requested (trace st1) =
          requested (trace st2) @ probes (season_url show_url) (season + 1) ks"
    by auto
  have "length (k # ks) = Suc n \<and>
      requested (trace st1) = requested (trace st) @ probes (season_url show_url) season (k # ks)"
    using q q' lk by simp
  then have "\<exists>ks. length ks = Suc n \<and>
      requested (trace st1) = requested (trace st) @ probes (season_url show_url) season ks"
    by (rule exI)
  with o o' r r' l b ne nes show ?case by simp
qed

lemma season_loop_complete:
  assumes "season_loop e show_url season all_episodes st = Some y"
  shows "\<forall>xs st'. y = (Inr xs, st') \<longrightarrow>
    (\<exists>n seasons st1. fetch_seasons e show_url n season st = Some (seasons, st1) \<and>
       get_episode_links e show_url (season + n) st1 = Some (Inr [], st') \<and>
       xs = all_episodes @ concat seasons)"
proof (rule season_loop.raw_induct
    [where P = "\<lambda>e show_url season all_episodes st y. \<forall>xs st'. y = (Inr xs, st') \<longrightarrow>
    (\<exists>n seasons st1. fetch_seasons e show_url n season st = Some (seasons, st1) \<and>
       get_episode_links e show_url (season + n) st1 = Some (Inr [], st') \<and>
       xs = all_episodes @ concat seasons)", OF _ assms], goal_cases)
  case (1 loop e show_url season all_episodes st y)
  note IH = 1(1) and body = 1(2)
  show ?case
  proof (intro allI impI)
    fix xs st' assume y: "y = (Inr xs, st')"
    from body y consider
      (stop) "get_episode_links e show_url season st = Some (Inr [], st')" "xs = all_episodes"
    | (step) episodes st2 where
        "get_episode_links e show_url season st = Some (Inr episodes, st2)" "episodes \<noteq> []"
        "loop e show_url (season + 1) (all_episodes @ episodes) st2 = Some (Inr xs, st')"
      by (auto split: option.splits sum.splits prod.splits if_splits)
    then show "\<exists>n seasons st1. fetch_seasons e show_url n season st = Some (seasons, st1) \<and>
       get_episode_links e show_url (season + n) st1 = Some (Inr [], st') \<and>
       xs = all_episodes @ concat seasons"
    proof cases
      case stop
      then have "fetch_seasons e show_url 0 season st = Some ([], st) \<and>
         get_episode_links e show_url (season + 0) st = Some (Inr [], st') \<and>
         xs = all_episodes @ concat []"
        by simp
      then show ?thesis by blast
    next
      case step
      from IH[OF step(3)] obtain n seasons st1 where
        f: "fetch_seasons e show_url n (season + 1) st2 = Some (seasons, st1)" and
        g: "get_episode_links e show_url (season + 1 + n) st1 = Some (Inr [], st')" and
        x: "xs = (all_episodes @ episodes) @ concat seasons"
        by auto
      have "fetch_seasons e show_url (Suc n) season st = Some (episodes # seasons, st1) \<and>
         get_episode_links e show_url (season + Suc n) st1 = Some (Inr [], st') \<and>
         xs = all_episodes @ concat (episodes # seasons)"
        using step(1,2) f g x by simp
      then show ?thesis by blast
    qed
  qed
qed

text \<open>
  Claim C3. When the season pages \<open>1, \<dots>, n\<close> of a show have each yielded at least one
  link and page \<open>n + 1\<close> yields none, \<^verbatim>\<open>scrape_show_episodes\<close> returns the concatenation of
  the links of seasons \<open>1, \<dots>, n\<close>; the requests it made are those of the season pages
  \<open>1, \<dots>, n + 1\<close> in this order (each with its retries), so no season page with a higher
  number is fetched.
\<close>

theorem first_empty_season_ends_show:
  assumes "fetch_seasons e (url s) n 1
             (emit (Print (''--- Scraping: '' @ title s @ '' ---'')) st) = Some (seasons, st1)"
    and "get_episode_links e (url s) (Suc n) st1 = Some (Inr [], st2)"
  shows "scrape_show_episodes e s st = Some (Inr (concat seasons), st2) \<and>
    length seasons = n \<and> (\<forall>l\<in>set seasons. l \<noteq> []) \<and>
    (\<exists>ks k. length ks = n \<and>
       requested (trace st2) = requested (trace st) @ probes (season_url (url s)) 1 (ks @ [k])) \<and>
    set (requested (trace st2)) \<subseteq> set (requested (trace st)) \<union> season_url (url s) ` {1..Suc n}"
proof -
  let ?st0 = "emit (Print (''--- Scraping: '' @ title s @ '' ---'')) st"
  have "season_loop e (url s) 1 [] ?st0 = season_loop e (url s) (1 + n) ([] @ concat seasons) st1"
    by (rule fetch_seasons_loop[OF assms(1)])
  also have "\<dots> = Some (Inr (concat seasons), st2)"
    using assms(2) by (simp add: season_loop_stop)
  finally have res: "scrape_show_episodes e s st = Some (Inr (concat seasons), st2)"
    by (simp add: scrape_show_episodes_def)
  from fetch_seasons_frame[OF assms(1)] obtain ks where
    ln: "length seasons = n" and ne: "\<forall>l\<in>set seasons. l \<noteq> []" and lk: "length ks = n" and
    q1: "requested (trace st1) = requested (trace ?st0) @ probes (season_url (url s)) 1 ks"
    by auto
  from get_episode_links_frame[OF assms(2)] obtain k where
    q2: "requested (trace st2) =
           requested (trace st1) @ replicate (Suc k) (season_url (url s) (Suc n))"
    by auto
  have q: "requested (trace st2) =
      requested (trace st) @ probes (season_url (url s)) 1 (ks @ [k])"
    using q1 q2 lk by (simp add: trace_emit requested_append probes_append)
  have "set (probes (season_url (url s)) 1 (ks @ [k]))
      \<subseteq> season_url (url s) ` {1..<1 + length (ks @ [k])}"
    by (rule set_probes)
  also have "{1..<1 + length (ks @ [k])} = {1..Suc n}"
    using lk by auto
  finally have sub: "set (requested (trace st2)) \<subseteq>
      set (requested (trace st)) \<union> season_url (url s) ` {1..Suc n}"
    unfolding q by auto
  from lk q have "\<exists>ks k. length ks = n \<and>
       requested (trace st2) = requested (trace st) @ probes (season_url (url s)) 1 (ks @ [k])"
    by - (rule exI[of _ ks], rule exI[of _ k], simp)
  with res ln ne sub show ?thesis by (intro conjI)
qed

text \<open>
  Witness for C3: show B of the small catalogue has two seasons of one episode each; its
  third season page is empty.
\<close>

theorem first_empty_season_ends_show_witness:
  "\<exists>st'. scrape_show_episodes site_env show_b st0 =
       Some (Inr [BASE_URL @ ''/show-b/season:1/videos/e1'',
                  BASE_URL @ ''/show-b/season:2/videos/e1''], st')
     \<and> (\<exists>ks k. length ks = 2 \<and>
          requested (trace st') =
            requested (trace st0) @ probes (season_url (url show_b)) 1 (ks @ [k]))"
proof -
  let ?F = "fetch_seasons site_env (url show_b) 2 1
              (emit (Print (''--- Scraping: '' @ title show_b @ '' ---'')) st0)"
  let ?G = "get_episode_links site_env (url show_b) (Suc 2) (snd (the ?F))"
  let ?ls = "[[BASE_URL @ ''/show-b/season:1/videos/e1''], [BASE_URL @ ''/show-b/season:2/videos/e1'']]"
  have f: "?F = Some (?ls, snd (the ?F))" by code_simp
  have g: "?G = Some (Inr [], snd (the ?G))" by code_simp
  note t = first_empty_season_ends_show[OF f g]
  from t have r: "scrape_show_episodes site_env show_b st0 = Some (Inr (concat ?ls), snd (the ?G))"
    by (rule conjunct1)
  from t have q: "\<exists>ks k. length ks = 2 \<and>
       requested (trace (snd (the ?G))) =
         requested (trace st0) @ probes (season_url (url show_b)) 1 (ks @ [k])"
    by simp
  from r q show ?thesis by - (rule exI[of _ "snd (the ?G)"], simp)
qed

subsection \<open>C7: the download phase\<close>

lemma trace_emit_all: "trace (emit_all evs st) = trace st @ evs"
  by (induction evs arbitrary: st) (simp_all add: trace_emit)

lemma outfile_emit_all: "outfile (emit_all evs st) = outfile st"
  by (induction evs arbitrary: st) (simp_all add: outfile_emit)

lemma get_ytdlp_binary_Inl:
  "get_ytdlp_binary e = Inl x \<Longrightarrow>
     x = FileNotFoundError ''yt-dlp binary not found in PATH or current directory''"
  by (auto simp: get_ytdlp_binary_def Let_def split: option.splits if_splits)

lemma trace_banner:
  "trace (banner st) = trace st @
     [Print (''\<newline>'' @ replicate 50 CHR ''=''), Print ''STARTING YT-DLP DOWNLOAD'',
      Print (replicate 50 CHR ''='' @ ''\<newline>'')]"
  by (simp add: banner_def trace_emit)

lemma outfile_banner: "outfile (banner st) = outfile st"
  by (simp add: banner_def outfile_emit)

lemma ran_banner: "ran (trace (banner st)) = ran (trace st)"
  by (simp add: trace_banner ran_append)

lemma requested_banner: "requested (trace (banner st)) = requested (trace st)"
  by (simp add: trace_banner requested_append)

lemma run_ytdlp_no_cookies:
  assumes "\<not> path_exists e COOKIES_FILE (clock st)"
  shows "run_ytdlp e d st =
    (Inr (), emit (Print (''\<newline>ERROR: '' @ [CHR 0x27] @ COOKIES_FILE @ [CHR 0x27]
                        @ '' is missing. Cannot proceed with download.'')) st)"
  using assms by (simp add: run_ytdlp_def)

lemma run_ytdlp_absent:
  assumes "path_exists e COOKIES_FILE (clock st)" and "get_ytdlp_binary e = Inl x"
  shows "run_ytdlp e d st =
    (Inr (), emit (Print ''\<newline>ERROR: yt-dlp binary not found in PATH or current directory'') st)"
  using assms get_ytdlp_binary_Inl[OF assms(2)] by (simp add: run_ytdlp_def)

lemma run_ytdlp_invoked:
  assumes "path_exists e COOKIES_FILE (clock st)" and "get_ytdlp_binary e = Inr b"
  shows "run_ytdlp e d st =
    (case subprocess_run e (ytdlp_command e b d (get_ffmpeg_path e)) of
       Exited returncode \<Rightarrow>
         if returncode = 0 then
           (Inr (), emit (Print ''\<newline>Download batch complete.'')
              (emit (Run (ytdlp_command e b d (get_ffmpeg_path e))) (banner st)))
         else
           (Inr (), emit (Print (''yt-dlp encountered an error (Code: '' @ show_int returncode @ '').''))
              (emit (Run (ytdlp_command e b d (get_ffmpeg_path e))) (banner st)))
     | SpawnError m \<Rightarrow>
         (Inl (OSError m), emit (Run (ytdlp_command e b d (get_ffmpeg_path e))) (banner st))
     | RunInterrupt \<Rightarrow>
         (Inr (), emit (Print ''\<newline>Download cancelled by user.'')
            (emit (Run (ytdlp_command e b d (get_ffmpeg_path e))) (banner st))))"
  using assms by (simp add: run_ytdlp_def Let_def split: run_outcome.splits)

lemma run_ytdlp_outfile: "outfile (snd (run_ytdlp e d st)) = outfile st"
proof (cases "path_exists e COOKIES_FILE (clock st)")
  case False
  then show ?thesis by (simp add: run_ytdlp_no_cookies outfile_emit)
next
  case True
  show ?thesis
  proof (cases "get_ytdlp_binary e")
    case (Inl x)
    with True show ?thesis by (simp add: run_ytdlp_absent outfile_emit)
  next
    case (Inr b)
    with True show ?thesis
      by (simp add: run_ytdlp_invoked outfile_emit outfile_banner split: run_outcome.splits)
  qed
qed

lemma run_ytdlp_requested: "requested (trace (snd (run_ytdlp e d st))) = requested (trace st)"
proof (cases "path_exists e COOKIES_FILE (clock st)")
  case False
  then show ?thesis by (simp add: run_ytdlp_no_cookies trace_emit requested_append)
next
  case True
  show ?thesis
  proof (cases "get_ytdlp_binary e")
    case (Inl x)
    with True show ?thesis by (simp add: run_ytdlp_absent trace_emit requested_append)
  next
    case (Inr b)
    with True show ?thesis
      by (simp add: run_ytdlp_invoked trace_emit requested_append requested_banner
          split: run_outcome.splits)
  qed
qed

lemma run_ytdlp_raises:
  assumes "fst (run_ytdlp e d st) = Inl x"
  shows "\<exists>b m. path_exists e COOKIES_FILE (clock st) \<and> get_ytdlp_binary e = Inr b \<and>
    subprocess_run e (ytdlp_command e b d (get_ffmpeg_path e)) = SpawnError m \<and> x = OSError m"
proof (cases "path_exists e COOKIES_FILE (clock st)")
  case False
  with assms show ?thesis by (simp add: run_ytdlp_no_cookies)
next
  case True
  show ?thesis
  proof (cases "get_ytdlp_binary e")
    case (Inl y)
    with True assms show ?thesis by (simp add: run_ytdlp_absent)
  next
    case (Inr b)
    with True assms show ?thesis
      by (cases "subprocess_run e (ytdlp_command e b d (get_ffmpeg_path e))")
         (auto simp: run_ytdlp_invoked split: if_splits)
  qed
qed

text \<open>
  Claim C7, as the specification states it, fails: the download phase does propagate an
  exception. \<^verbatim>\<open>resolve_binary\<close> accepts any regular file named \<^verbatim>\<open>yt-dlp\<close> in the current
  directory; when that file cannot be started, \<^verbatim>\<open>subprocess.run\<close> raises an \<^verbatim>\<open>OSError\<close>,
  which neither handler of \<^verbatim>\<open>run_ytdlp\<close> catches, and the program ends with that
  exception uncaught.
\<close>

theorem download_phase_propagates_spawn_error:
  "get_ytdlp_binary unstartable_ytdlp_env = Inr ''/home/u/yt-dlp''
   \<and> fst (run_ytdlp unstartable_ytdlp_env ''Dropout'' st0)
       = Inl (OSError ''[Errno 13] Permission denied'')
   \<and> map_option fst (main unstartable_ytdlp_env st0)
       = Some (Uncaught (OSError ''[Errno 13] Permission denied''))"
proof -
  have a: "get_ytdlp_binary unstartable_ytdlp_env = Inr ''/home/u/yt-dlp''" by code_simp
  have b: "fst (run_ytdlp unstartable_ytdlp_env ''Dropout'' st0)
       = Inl (OSError ''[Errno 13] Permission denied'')" by code_simp
  have c: "map_option fst (main unstartable_ytdlp_env st0)
       = Some (Uncaught (OSError ''[Errno 13] Permission denied''))" by code_simp
  from a b c show ?thesis by (intro conjI)
qed

text \<open>
  Claim C7, amended. \<^verbatim>\<open>run_ytdlp\<close> never touches the output file, and it returns normally
  unless the resolved binary cannot be started: the only exception it lets through is
  the \<^verbatim>\<open>OSError\<close> that \<^verbatim>\<open>subprocess.run\<close> raises then. In the three cases the
  specification names it reports and returns normally: if the binary cannot be resolved
  it prints \<^verbatim>\<open>ERROR: yt-dlp binary not found in PATH or current directory\<close> and does
  nothing else, so no subprocess is run; if the downloader exits with a status other
  than 0, it prints that status after the one run of the command; if the user interrupts
  the downloader, it prints that the download was cancelled after the one run of the
  command. (If the cookie file has disappeared by then, it prints that and does nothing
  else.)
\<close>

theorem download_phase_returns_unless_spawn_fails:
  "(fst (run_ytdlp e d st) = Inr () \<or>
      (\<exists>b m. path_exists e COOKIES_FILE (clock st) \<and> get_ytdlp_binary e = Inr b \<and>
         subprocess_run e (ytdlp_command e b d (get_ffmpeg_path e)) = SpawnError m \<and>
         fst (run_ytdlp e d st) = Inl (OSError m)))
   \<and> outfile (snd (run_ytdlp e d st)) = outfile st
   \<and> (\<forall>x. path_exists e COOKIES_FILE (clock st) \<and> get_ytdlp_binary e = Inl x \<longrightarrow>
        run_ytdlp e d st =
          (Inr (), emit (Print ''\<newline>ERROR: yt-dlp binary not found in PATH or current directory'') st) \<and>
        ran (trace (snd (run_ytdlp e d st))) = ran (trace st))
   \<and> (\<forall>b rc. path_exists e COOKIES_FILE (clock st) \<and> get_ytdlp_binary e = Inr b \<and>
          subprocess_run e (ytdlp_command e b d (get_ffmpeg_path e)) = Exited rc \<and> rc \<noteq> 0 \<longrightarrow>
        run_ytdlp e d st =
          (Inr (), emit (Print (''yt-dlp encountered an error (Code: '' @ show_int rc @ '').''))
             (emit (Run (ytdlp_command e b d (get_ffmpeg_path e))) (banner st))) \<and>
        ran (trace (snd (run_ytdlp e d st))) =
          ran (trace st) @ [ytdlp_command e b d (get_ffmpeg_path e)])
   \<and> (\<forall>b. path_exists e COOKIES_FILE (clock st) \<and> get_ytdlp_binary e = Inr b \<and>
          subprocess_run e (ytdlp_command e b d (get_ffmpeg_path e)) = RunInterrupt \<longrightarrow>
        run_ytdlp e d st =
          (Inr (), emit (Print ''\<newline>Download cancelled by user.'')
             (emit (Run (ytdlp_command e b d (get_ffmpeg_path e))) (banner st))) \<and>
        ran (trace (snd (run_ytdlp e d st))) =
          ran (trace st) @ [ytdlp_command e b d (get_ffmpeg_path e)])
   \<and> (\<not> path_exists e COOKIES_FILE (clock st) \<longrightarrow>
        run_ytdlp e d st =
          (Inr (), emit (Print (''\<newline>ERROR: '' @ [CHR 0x27] @ COOKIES_FILE @ [CHR 0x27]
                        @ '' is missing. Cannot proceed with download.'')) st))"
proof (intro conjI allI impI)
  show "fst (run_ytdlp e d st) = Inr () \<or>
      (\<exists>b m. path_exists e COOKIES_FILE (clock st) \<and> get_ytdlp_binary e = Inr b \<and>
         subprocess_run e (ytdlp_command e b d (get_ffmpeg_path e)) = SpawnError m \<and>
         fst (run_ytdlp e d st) = Inl (OSError m))"
  proof (cases "fst (run_ytdlp e d st)")
    case (Inr u)
    then show ?thesis by simp
  next
    case (Inl x)
    from run_ytdlp_raises[OF Inl] Inl show ?thesis by auto
  qed
  show "outfile (snd (run_ytdlp e d st)) = outfile st" by (rule run_ytdlp_outfile)
next
  fix x assume a: "path_exists e COOKIES_FILE (clock st) \<and> get_ytdlp_binary e = Inl x"
  then have a1: "path_exists e COOKIES_FILE (clock st)" and a2: "get_ytdlp_binary e = Inl x"
    by simp_all
  show r: "run_ytdlp e d st =
          (Inr (), emit (Print ''\<newline>ERROR: yt-dlp binary not found in PATH or current directory'') st)"
    by (rule run_ytdlp_absent[OF a1 a2])
  show "ran (trace (snd (run_ytdlp e d st))) = ran (trace st)"
    unfolding r by (simp add: trace_emit ran_append)
next
  fix b rc
  assume a: "path_exists e COOKIES_FILE (clock st) \<and> get_ytdlp_binary e = Inr b \<and>
          subprocess_run e (ytdlp_command e b d (get_ffmpeg_path e)) = Exited rc \<and> rc \<noteq> 0"
  then have a1: "path_exists e COOKIES_FILE (clock st)" and a2: "get_ytdlp_binary e = Inr b"
    and a3: "subprocess_run e (ytdlp_command e b d (get_ffmpeg_path e)) = Exited rc"
    and a4: "rc \<noteq> 0"
    by simp_all
  show r: "run_ytdlp e d st =
          (Inr (), emit (Print (''yt-dlp encountered an error (Code: '' @ show_int rc @ '').''))
             (emit (Run (ytdlp_command e b d (get_ffmpeg_path e))) (banner st)))"
    unfolding run_ytdlp_invoked[OF a1 a2] a3 using a4 by simp
  show "ran (trace (snd (run_ytdlp e d st))) =
          ran (trace st) @ [ytdlp_command e b d (get_ffmpeg_path e)]"
    unfolding r by (simp add: trace_emit ran_append ran_banner)
next
  fix b
  assume a: "path_exists e COOKIES_FILE (clock st) \<and> get_ytdlp_binary e = Inr b \<and>
          subprocess_run e (ytdlp_command e b d (get_ffmpeg_path e)) = RunInterrupt"
  then have a1: "path_exists e COOKIES_FILE (clock st)" and a2: "get_ytdlp_binary e = Inr b"
    and a3: "subprocess_run e (ytdlp_command e b d (get_ffmpeg_path e)) = RunInterrupt"
    by simp_all
  show r: "run_ytdlp e d st =
          (Inr (), emit (Print ''\<newline>Download cancelled by user.'')
             (emit (Run (ytdlp_command e b d (get_ffmpeg_path e))) (banner st)))"
    unfolding run_ytdlp_invoked[OF a1 a2] a3 by simp
  show "ran (trace (snd (run_ytdlp e d st))) =
          ran (trace st) @ [ytdlp_command e b d (get_ffmpeg_path e)]"
    unfolding r by (simp add: trace_emit ran_append ran_banner)
next
  assume "\<not> path_exists e COOKIES_FILE (clock st)"
  then show "run_ytdlp e d st =
          (Inr (), emit (Print (''\<newline>ERROR: '' @ [CHR 0x27] @ COOKIES_FILE @ [CHR 0x27]
                        @ '' is missing. Cannot proceed with download.'')) st)"
    by (rule run_ytdlp_no_cookies)
qed

text \<open>
  Witness for the amended C7: a world without the binary, one whose downloader exits
  with status 1, and one whose downloader is interrupted by the user.
\<close>

theorem download_phase_returns_witness:
  "run_ytdlp no_ytdlp_env ''Dropout'' st0 =
     (Inr (), emit (Print ''\<newline>ERROR: yt-dlp binary not found in PATH or current directory'') st0)
   \<and> ran (trace (snd (run_ytdlp no_ytdlp_env ''Dropout'' st0))) = []
   \<and> fst (run_ytdlp failing_ytdlp_env ''Dropout'' st0) = Inr ()
   \<and> length (ran (trace (snd (run_ytdlp failing_ytdlp_env ''Dropout'' st0)))) = 1
   \<and> last (trace (snd (run_ytdlp failing_ytdlp_env ''Dropout'' st0))) =
       Print ''yt-dlp encountered an error (Code: 1).''
   \<and> fst (run_ytdlp interrupted_ytdlp_env ''Dropout'' st0) = Inr ()
   \<and> length (ran (trace (snd (run_ytdlp interrupted_ytdlp_env ''Dropout'' st0)))) = 1
   \<and> last (trace (snd (run_ytdlp interrupted_ytdlp_env ''Dropout'' st0))) =
       Print ''\<newline>Download cancelled by user.''"
proof -
  have t0: "trace st0 = []" by (simp add: st0_def)
  have a1: "path_exists no_ytdlp_env COOKIES_FILE (clock st0)" by code_simp
  have a2: "get_ytdlp_binary no_ytdlp_env
      = Inl (FileNotFoundError ''yt-dlp binary not found in PATH or current directory'')"
    by code_simp
  from a1 a2 have a: "path_exists no_ytdlp_env COOKIES_FILE (clock st0) \<and>
      get_ytdlp_binary no_ytdlp_env
      = Inl (FileNotFoundError ''yt-dlp binary not found in PATH or current directory'')"
    by (intro conjI)
  note A = download_phase_returns_unless_spawn_fails[of no_ytdlp_env "''Dropout''" st0]
  note A3 = A[THEN conjunct2, THEN conjunct2, THEN conjunct1, rule_format, OF a]
  have f1: "path_exists failing_ytdlp_env COOKIES_FILE (clock st0)" by code_simp
  have f2: "get_ytdlp_binary failing_ytdlp_env = Inr ''/usr/bin/yt-dlp''" by code_simp
  have f3: "subprocess_run failing_ytdlp_env
      (ytdlp_command failing_ytdlp_env ''/usr/bin/yt-dlp'' ''Dropout''
        (get_ffmpeg_path failing_ytdlp_env)) = Exited 1"
    by (simp add: failing_ytdlp_env_def)
  have f4: "show_int 1 = ''1''" by code_simp
  note B = download_phase_returns_unless_spawn_fails[of failing_ytdlp_env "''Dropout''" st0]
  from f1 f2 f3 have f: "path_exists failing_ytdlp_env COOKIES_FILE (clock st0) \<and>
      get_ytdlp_binary failing_ytdlp_env = Inr ''/usr/bin/yt-dlp'' \<and>
      subprocess_run failing_ytdlp_env
        (ytdlp_command failing_ytdlp_env ''/usr/bin/yt-dlp'' ''Dropout''
          (get_ffmpeg_path failing_ytdlp_env)) = Exited 1 \<and> (1::int) \<noteq> 0"
    by simp
  note B4 = B[THEN conjunct2, THEN conjunct2, THEN conjunct2, THEN conjunct1, rule_format, OF f]
  have i1: "path_exists interrupted_ytdlp_env COOKIES_FILE (clock st0)" by code_simp
  have i2: "get_ytdlp_binary interrupted_ytdlp_env = Inr ''/usr/bin/yt-dlp''" by code_simp
  have i3: "subprocess_run interrupted_ytdlp_env
      (ytdlp_command interrupted_ytdlp_env ''/usr/bin/yt-dlp'' ''Dropout''
        (get_ffmpeg_path interrupted_ytdlp_env)) = RunInterrupt"
    by (simp add: interrupted_ytdlp_env_def)
  note C = download_phase_returns_unless_spawn_fails[of interrupted_ytdlp_env "''Dropout''" st0]
  from i1 i2 i3 have i: "path_exists interrupted_ytdlp_env COOKIES_FILE (clock st0) \<and>
      get_ytdlp_binary interrupted_ytdlp_env = Inr ''/usr/bin/yt-dlp'' \<and>
      subprocess_run interrupted_ytdlp_env
        (ytdlp_command interrupted_ytdlp_env ''/usr/bin/yt-dlp'' ''Dropout''
          (get_ffmpeg_path interrupted_ytdlp_env)) = RunInterrupt"
    by simp
  note C5 = C[THEN conjunct2, THEN conjunct2, THEN conjunct2, THEN conjunct2, THEN conjunct1,
      rule_format, OF i]
  show ?thesis
    using A3 B4 C5
    by (simp add: t0 f4 trace_emit ran_append ran_banner)
qed

subsection \<open>C5: the missing cookie file\<close>

lemma check_prerequisites_missing:
  assumes "\<not> path_exists e COOKIES_FILE (clock st)"
  shows "fst (check_prerequisites e st) = Inl (SystemExit 1) \<and>
    outfile (snd (check_prerequisites e st)) = outfile st \<and>
    requested (trace (snd (check_prerequisites e st))) = requested (trace st) \<and>
    ran (trace (snd (check_prerequisites e st))) = ran (trace st)"
  using assms
  by (simp add: check_prerequisites_def Let_def trace_emit_all outfile_emit_all
      trace_emit outfile_emit requested_append ran_append)

lemma check_prerequisites_present:
  assumes "path_exists e COOKIES_FILE (clock st)"
  shows "fst (check_prerequisites e st) = Inr () \<and>
    outfile (snd (check_prerequisites e st)) = outfile st \<and>
    requested (trace (snd (check_prerequisites e st))) = requested (trace st) \<and>
    ran (trace (snd (check_prerequisites e st))) = ran (trace st)"
  using assms
  by (simp add: check_prerequisites_def Let_def trace_emit_all outfile_emit_all
      trace_emit outfile_emit requested_append ran_append)

text \<open>
  Claim C5, as the specification states it, fails: started with \<^verbatim>\<open>-h\<close> or \<^verbatim>\<open>--help\<close>,
  the program ends in \<^verbatim>\<open>parse_args\<close>, before the cookie check, and the parser exits with
  status 0, also when the cookie file does not exist.
\<close>

theorem help_request_exits_zero_without_cookie_file:
  "\<not> path_exists help_env COOKIES_FILE (clock st0)
   \<and> parse_args help_env = Inl (SystemExit 0)
   \<and> main help_env st0 = Some (ExitStatus 0, st0)"
proof -
  have a: "\<not> path_exists help_env COOKIES_FILE (clock st0)" by code_simp
  have b: "parse_args help_env = Inl (SystemExit 0)" by code_simp
  from b have c: "main help_env st0 = Some (ExitStatus 0, st0)"
    by (simp add: main_def)
  from a b c show ?thesis by (intro conjI)
qed

text \<open>
  Claim C5, amended. If the cookie file does not exist when the program starts, the
  program ends without having made a request (neither an index page nor a season page
  is fetched), without having run a subprocess (the download phase is not reached) and
  with the output file as it was. The exit status is 1 whenever \<^verbatim>\<open>parse_args\<close> returns;
  otherwise the parser has ended the process itself, with its own status.
\<close>

theorem missing_cookie_file_ends_before_any_request:
  assumes "\<not> path_exists e COOKIES_FILE (clock st)"
  shows "\<exists>en st'. main e st = Some (en, st') \<and>
    requested (trace st') = requested (trace st) \<and>
    ran (trace st') = ran (trace st) \<and>
    outfile st' = outfile st \<and>
    (\<forall>d. parse_args e = Inr d \<longrightarrow> en = ExitStatus 1) \<and>
    (\<forall>x. parse_args e = Inl x \<longrightarrow> en = ending_of x \<and> st' = st)"
proof (cases "parse_args e")
  case (Inl x)
  then have "main e st = Some (ending_of x, st)" by (simp add: main_def)
  with Inl show ?thesis
    by - (rule exI[of _ "ending_of x"], rule exI[of _ st], simp)
next
  case (Inr d)
  note c = check_prerequisites_missing[OF assms]
  obtain x st1 where p: "check_prerequisites e st = (x, st1)" by (cases "check_prerequisites e st")
  with c have x: "x = Inl (SystemExit 1)" and
    f: "outfile st1 = outfile st" "requested (trace st1) = requested (trace st)"
       "ran (trace st1) = ran (trace st)"
    by simp_all
  from p x Inr have "main e st = Some (ExitStatus 1, st1)"
    by (simp add: main_def)
  with f Inr show ?thesis
    by - (rule exI[of _ "ExitStatus 1"], rule exI[of _ st1], simp)
qed

text \<open>Witness for the amended C5: the small catalogue without a cookie file, no argument.\<close>

theorem missing_cookie_file_ends_witness:
  "parse_args no_cookies_env = Inr ''Dropout'' \<and>
   map_option fst (main no_cookies_env st0) = Some (ExitStatus 1) \<and>
   requested (trace (snd (the (main no_cookies_env st0)))) = [] \<and>
   ran (trace (snd (the (main no_cookies_env st0)))) = [] \<and>
   outfile (snd (the (main no_cookies_env st0))) = ''old''"
proof -
  have h: "\<not> path_exists no_cookies_env COOKIES_FILE (clock st0)" by code_simp
  have p: "parse_args no_cookies_env = Inr ''Dropout''" by code_simp
  from missing_cookie_file_ends_before_any_request[OF h]
  obtain en st' where m: "main no_cookies_env st0 = Some (en, st')" and
    "requested (trace st') = requested (trace st0)" "ran (trace st') = ran (trace st0)"
    "outfile st' = outfile st0" and
    d: "\<forall>d. parse_args no_cookies_env = Inr d \<longrightarrow> en = ExitStatus 1"
    by blast
  moreover from d p have "en = ExitStatus 1" by blast
  ultimately show ?thesis using p by (simp add: st0_def)
qed

subsection \<open>The episode walk and the main program\<close>

lemma lines_of_append: "lines_of (xs @ ys) = lines_of xs @ lines_of ys"
  by (simp add: lines_of_def)

lemma write_urls_appended:
  "write_urls us (st, total_urls) = (appended us st, total_urls + length us)"
proof (induction us arbitrary: st total_urls)
  case Nil
  then show ?case by (simp add: appended_def lines_of_def)
next
  case (Cons u us)
  show ?case
    by (simp add: Cons.IH appended_def lines_of_def)
qed

lemma trace_appended: "trace (appended us st) = trace st"
  by (simp add: appended_def)

lemma outfile_appended: "outfile (appended us st) = outfile st @ lines_of us"
  by (simp add: appended_def)

lemma fetch_season_pages_fetch_seasons:
  assumes "fetch_season_pages e show_url n season st = Some (pages, st')"
  shows "fetch_seasons e show_url n season st
    = Some (map (map (urljoin e show_url)) pages, st')"
  using assms
proof (induction n arbitrary: season st pages)
  case 0
  then show ?case by simp
next
  case (Suc n)
  from Suc.prems obtain r st1 rest where
    g: "blocking_get e (season_url show_url season) False st = Some (Inr r, st1)" and
    ne: "episode_hrefs r \<noteq> []" and
    f: "fetch_season_pages e show_url n (season + 1) st1 = Some (rest, st')" and
    p: "pages = episode_hrefs r # rest"
    by (auto split: option.splits sum.splits prod.splits if_splits)
  from g have l: "get_episode_links e show_url season st
      = Some (Inr (map (urljoin e show_url) (episode_hrefs r)), st1)"
    by (simp add: get_episode_links_def)
  from Suc.IH[OF f] l ne show ?case unfolding p by simp
qed

lemma scrape_show_episodes_walk:
  assumes f: "fetch_season_pages e (url s) n 1
      (emit (Print (''--- Scraping: '' @ title s @ '' ---'')) st) = Some (pages, st1)"
    and g: "blocking_get e (season_url (url s) (Suc n)) False st1 = Some (Inr r, st2)"
    and z: "episode_hrefs r = []"
  shows "scrape_show_episodes e s st = Some (Inr (episode_urls_of e s pages), st2)"
proof -
  let ?st0 = "emit (Print (''--- Scraping: '' @ title s @ '' ---'')) st"
  let ?seasons = "map (map (urljoin e (url s))) pages"
  from g z have l: "get_episode_links e (url s) (Suc n) st1 = Some (Inr [], st2)"
    by (simp add: get_episode_links_def)
  have "season_loop e (url s) 1 [] ?st0 = season_loop e (url s) (1 + n) ([] @ concat ?seasons) st1"
    by (rule fetch_seasons_loop[OF fetch_season_pages_fetch_seasons[OF f]])
  also have "\<dots> = Some (Inr (concat ?seasons), st2)"
    using l by (simp add: season_loop_stop)
  finally show ?thesis
    by (simp add: scrape_show_episodes_def episode_urls_of_def)
qed

lemma scrape_and_write_walk:
  assumes "fetch_shows e series_list ns st = Some (walk, st')"
  shows "scrape_and_write e series_list (st, total_urls)
      = Some (None, st', total_urls + length (written_urls e series_list walk)) \<and>
    outfile st' = outfile st @ lines_of (written_urls e series_list walk) \<and>
    length walk = length series_list \<and> length ns = length series_list"
  using assms
proof (induction series_list arbitrary: ns st walk total_urls)
  case Nil
  then show ?case by (cases ns) (simp_all add: lines_of_def)
next
  case (Cons s ss)
  let ?st0 = "emit (Print (''--- Scraping: '' @ title s @ '' ---'')) st"
  from Cons.prems obtain n ns' where ns: "ns = n # ns'" by (cases ns) simp_all
  from Cons.prems obtain pages st1 r st2 rest where
    f: "fetch_season_pages e (url s) n 1 ?st0 = Some (pages, st1)" and
    g: "blocking_get e (season_url (url s) (Suc n)) False st1 = Some (Inr r, st2)" and
    z: "episode_hrefs r = []" and
    w: "fetch_shows e ss ns' (appended (episode_urls_of e s pages) st2) = Some (rest, st')" and
    k: "walk = pages # rest"
    unfolding ns by (auto split: option.splits sum.splits prod.splits if_splits)
  note sh = scrape_show_episodes_walk[OF f g z]
  note IH = Cons.IH[OF w, of "total_urls + length (episode_urls_of e s pages)"]
  from fetch_seasons_frame[OF fetch_season_pages_fetch_seasons[OF f]]
  have o1: "outfile st1 = outfile st" by (simp add: outfile_emit)
  from blocking_get_frame[OF g] have o2: "outfile st2 = outfile st1" by simp
  from IH sh o1 o2 show ?case unfolding k ns
    by (simp add: write_urls_appended outfile_appended lines_of_append)
qed

lemma main_unfold:
  assumes "parse_args e = Inr d" and "path_exists e COOKIES_FILE (clock st)"
  shows "main e st =
    (case scrape_all_series e (before_index_walk e d st) of
       None \<Rightarrow> None
     | Some (Inl x, st3) \<Rightarrow> Some (ending_of x, st3)
     | Some (Inr series_list, st3) \<Rightarrow>
         (case scrape_and_write e series_list (before_episode_walk st3, 0) of
            None \<Rightarrow> None
          | Some (None, st5, total_urls) \<Rightarrow> Some (finish e (output_dir_of e d) total_urls st5)
          | Some (Some KeyboardInterrupt, st5, total_urls) \<Rightarrow>
              Some (finish e (output_dir_of e d) total_urls
                (emit (Print ''\<newline>Scraping interrupted! Proceeding to download with whatever we found...'') st5))
          | Some (Some x, st5, total_urls) \<Rightarrow> Some (ending_of x, st5)))"
proof -
  from check_prerequisites_present[OF assms(2)]
  have c: "check_prerequisites e st = (Inr (), snd (check_prerequisites e st))"
    by (cases "check_prerequisites e st") simp
  show ?thesis
    unfolding main_def assms(1) sum.case
    apply (subst c)
    apply (simp only: prod.case sum.case Let_def before_index_walk_def[symmetric]
        output_dir_of_def[symmetric] before_episode_walk_def[symmetric])
    done
qed

lemma blocking_get_raises:
  assumes "blocking_get e u allow st = Some y"
  shows "\<forall>x. fst y = Inl x \<longrightarrow> x = KeyboardInterrupt"
proof (rule blocking_get.raw_induct
    [where P = "\<lambda>e u allow st y. \<forall>x. fst y = Inl x \<longrightarrow> x = KeyboardInterrupt",
     OF _ assms], goal_cases)
  case (1 bg e u allow st y)
  note IH = 1(1) and body = 1(2)
  show ?case
  proof (cases "transient_failure allow (session_get e u (clock st))")
    case False
    then show ?thesis using body
      by (auto simp: transient_failure_def Let_def split: outcome.splits if_splits)
  next
    case True
    then obtain m where
      rec: "bg e u allow (retry_slowly m (emit (Get u) (emit (Print (''[GET] '' @ u)) st))) = Some y"
      using body
      by (auto simp: transient_failure_def Let_def split: outcome.splits if_splits)
    from IH[OF rec] show ?thesis .
  qed
qed

lemma get_series_from_page_raises:
  assumes "get_series_from_page e page st = Some (Inl x, st1)"
  shows "x = KeyboardInterrupt"
proof -
  from assms have "blocking_get e (index_url page) True st = Some (Inl x, st1)"
    by (auto simp: get_series_from_page_def split: option.splits sum.splits prod.splits if_splits)
  from blocking_get_raises[OF this] show ?thesis by simp
qed

lemma get_episode_links_raises:
  assumes "get_episode_links e show_url season st = Some (Inl x, st1)"
  shows "x = KeyboardInterrupt"
proof -
  from assms have "blocking_get e (season_url show_url season) False st = Some (Inl x, st1)"
    by (auto simp: get_episode_links_def split: option.splits sum.splits prod.splits if_splits)
  from blocking_get_raises[OF this] show ?thesis by simp
qed

lemma index_loop_frame:
  assumes "index_loop e page all_series seen st = Some y"
  shows "outfile (snd y) = outfile st \<and> ran (trace (snd y)) = ran (trace st) \<and>
    (\<forall>x. fst y = Inl x \<longrightarrow> x = KeyboardInterrupt)"
proof (rule index_loop.raw_induct
    [where P = "\<lambda>e page all_series seen st y.
      outfile (snd y) = outfile st \<and> ran (trace (snd y)) = ran (trace st) \<and>
      (\<forall>x. fst y = Inl x \<longrightarrow> x = KeyboardInterrupt)", OF _ assms], goal_cases)
  case (1 loop e page all_series seen st y)
  note IH = 1(1) and body = 1(2)
  from body obtain res st1 where g: "get_series_from_page e page st = Some (res, st1)"
    by (auto split: option.splits)
  note fr = get_series_from_page_frame[OF g]
  show ?case
  proof (cases res)
    case (Inl x)
    from g Inl have "x = KeyboardInterrupt" by (auto dest: get_series_from_page_raises)
    with body g Inl fr show ?thesis by auto
  next
    case (Inr b)
    show ?thesis
    proof (cases b)
      case None
      with body g Inr fr show ?thesis by auto
    next
      case (Some batch)
      with body g Inr have
        "loop e (page + 1) (fst (merge_batch batch (all_series, seen)))
           (snd (merge_batch batch (all_series, seen))) st1 = Some y"
        by simp
      from IH[OF this] fr show ?thesis by simp
    qed
  qed
qed

lemma scrape_all_series_frame:
  assumes "scrape_all_series e st = Some y"
  shows "outfile (snd y) = outfile st \<and> ran (trace (snd y)) = ran (trace st) \<and>
    (\<forall>x. fst y = Inl x \<longrightarrow> x = KeyboardInterrupt)"
proof -
  let ?st0 = "emit (Print ''--- Finding all Series ---'') st"
  from assms obtain z where l: "index_loop e 1 [] {} ?st0 = Some z"
    by (auto simp: scrape_all_series_def split: option.splits)
  note fr = index_loop_frame[OF l]
  from assms l have "(\<exists>x. z = (Inl x, snd z) \<and> y = z) \<or>
    (\<exists>xs. z = (Inr xs, snd z) \<and>
       y = (Inr xs, emit (Print (''Total Series Found: '' @ show_nat (length xs) @ ''\<newline>'')) (snd z)))"
    by (cases z; cases "fst z") (auto simp: scrape_all_series_def)
  with fr show ?thesis
    by (auto simp: outfile_emit trace_emit ran_append)
qed

lemma season_loop_frame:
  assumes "season_loop e show_url season all_episodes st = Some y"
  shows "outfile (snd y) = outfile st \<and> ran (trace (snd y)) = ran (trace st) \<and>
    (\<forall>x. fst y = Inl x \<longrightarrow> x = KeyboardInterrupt)"
proof (rule season_loop.raw_induct
    [where P = "\<lambda>e show_url season all_episodes st y.
      outfile (snd y) = outfile st \<and> ran (trace (snd y)) = ran (trace st) \<and>
      (\<forall>x. fst y = Inl x \<longrightarrow> x = KeyboardInterrupt)", OF _ assms], goal_cases)
  case (1 loop e show_url season all_episodes st y)
  note IH = 1(1) and body = 1(2)
  from body obtain res st1 where g: "get_episode_links e show_url season st = Some (res, st1)"
    by (auto split: option.splits)
  note fr = get_episode_links_frame[OF g]
  show ?case
  proof (cases res)
    case (Inl x)
    from g Inl have "x = KeyboardInterrupt" by (auto dest: get_episode_links_raises)
    with body g Inl fr show ?thesis by auto
  next
    case (Inr episodes)
    show ?thesis
    proof (cases "episodes = []")
      case True
      with body g Inr fr show ?thesis by auto
    next
      case False
      with body g Inr have
        "loop e show_url (season + 1) (all_episodes @ episodes) st1 = Some y"
        by simp
      from IH[OF this] fr show ?thesis by simp
    qed
  qed
qed

lemma scrape_show_episodes_frame:
  assumes "scrape_show_episodes e s st = Some y"
  shows "outfile (snd y) = outfile st \<and> ran (trace (snd y)) = ran (trace st) \<and>
    (\<forall>x. fst y = Inl x \<longrightarrow> x = KeyboardInterrupt)"
  using season_loop_frame[OF assms[unfolded scrape_show_episodes_def]]
  by (simp add: outfile_emit trace_emit ran_append)

lemma fetch_seasons_pages:
  assumes "fetch_seasons e show_url n season st = Some (seasons, st')"
  shows "\<exists>pages. fetch_season_pages e show_url n season st = Some (pages, st') \<and>
    seasons = map (map (urljoin e show_url)) pages"
  using assms
proof (induction n arbitrary: season st seasons)
  case 0
  then show ?case by simp
next
  case (Suc n)
  from Suc.prems obtain episodes rest st1 where
    l: "get_episode_links e show_url season st = Some (Inr episodes, st1)" and
    ne: "episodes \<noteq> []" and
    f: "fetch_seasons e show_url n (season + 1) st1 = Some (rest, st')" and
    s: "seasons = episodes # rest"
    by (rule fetch_seasons_Suc)
  from l obtain r where
    g: "blocking_get e (season_url show_url season) False st = Some (Inr r, st1)" and
    ep: "episodes = map (urljoin e show_url) (episode_hrefs r)"
    by (auto simp: get_episode_links_def split: option.splits sum.splits prod.splits)
  from Suc.IH[OF f] obtain pages where
    p: "fetch_season_pages e show_url n (season + 1) st1 = Some (pages, st')" and
    r: "rest = map (map (urljoin e show_url)) pages"
    by blast
  from ne ep have "episode_hrefs r \<noteq> []" by simp
  with g p have "fetch_season_pages e show_url (Suc n) season st
      = Some (episode_hrefs r # pages, st')"
    by simp
  moreover have "seasons = map (map (urljoin e show_url)) (episode_hrefs r # pages)"
    unfolding s ep r by simp
  ultimately show ?case by blast
qed

lemma scrape_show_episodes_complete:
  assumes "scrape_show_episodes e s st = Some (Inr episode_urls, st2)"
  shows "\<exists>n pages st1 r.
    fetch_season_pages e (url s) n 1
      (emit (Print (''--- Scraping: '' @ title s @ '' ---'')) st) = Some (pages, st1) \<and>
    blocking_get e (season_url (url s) (Suc n)) False st1 = Some (Inr r, st2) \<and>
    episode_hrefs r = [] \<and> episode_urls = episode_urls_of e s pages"
proof -
  let ?st0 = "emit (Print (''--- Scraping: '' @ title s @ '' ---'')) st"
  from assms have l: "season_loop e (url s) 1 [] ?st0 = Some (Inr episode_urls, st2)"
    by (simp add: scrape_show_episodes_def)
  from season_loop_complete[OF l] obtain n seasons st1 where
    f: "fetch_seasons e (url s) n 1 ?st0 = Some (seasons, st1)" and
    g: "get_episode_links e (url s) (1 + n) st1 = Some (Inr [], st2)" and
    x: "episode_urls = [] @ concat seasons"
    by blast
  from fetch_seasons_pages[OF f] obtain pages where
    p: "fetch_season_pages e (url s) n 1 ?st0 = Some (pages, st1)" and
    se: "seasons = map (map (urljoin e (url s))) pages"
    by blast
  from g obtain r where
    b: "blocking_get e (season_url (url s) (Suc n)) False st1 = Some (Inr r, st2)" and
    z: "episode_hrefs r = []"
    by (auto simp: get_episode_links_def split: option.splits sum.splits prod.splits)
  from x se have "episode_urls = episode_urls_of e s pages"
    by (simp add: episode_urls_of_def)
  with p b z show ?thesis by blast
qed

lemma scrape_and_write_complete:
  assumes "scrape_and_write e series_list (st, total_urls) = Some (raised, st', total_urls')"
  shows "\<exists>k ns walk st1. k \<le> length series_list \<and>
    fetch_shows e (take k series_list) ns st = Some (walk, st1) \<and>
    outfile st' = outfile st @ lines_of (written_urls e (take k series_list) walk) \<and>
    total_urls' = total_urls + length (written_urls e (take k series_list) walk) \<and>
    ran (trace st') = ran (trace st) \<and>
    (raised = None \<longrightarrow> k = length series_list \<and> st' = st1) \<and>
    (\<forall>x. raised = Some x \<longrightarrow> x = KeyboardInterrupt \<and> k < length series_list \<and>
       scrape_show_episodes e (series_list ! k) st1 = Some (Inl x, st'))"
  using assms
proof (induction series_list arbitrary: st total_urls)
  case Nil
  then have "raised = None" "st' = st" "total_urls' = total_urls" by simp_all
  then show ?case
    by - (rule exI[of _ 0], rule exI[of _ "[]"], rule exI[of _ "[]"], rule exI[of _ st],
          simp add: lines_of_def)
next
  case (Cons s ss)
  from Cons.prems obtain res st2 where sh: "scrape_show_episodes e s st = Some (res, st2)"
    by (auto split: option.splits)
  note fr = scrape_show_episodes_frame[OF sh]
  show ?case
  proof (cases res)
    case (Inl x)
    with fr have x: "x = KeyboardInterrupt" by simp
    from Cons.prems sh Inl have r: "raised = Some x" "st' = st2" "total_urls' = total_urls"
      by simp_all
    from r x sh Inl fr show ?thesis
      by - (rule exI[of _ 0], rule exI[of _ "[]"], rule exI[of _ "[]"], rule exI[of _ st],
            simp add: lines_of_def)
  next
    case (Inr episode_urls)
    from Cons.prems sh Inr have rec:
      "scrape_and_write e ss (appended episode_urls st2, total_urls + length episode_urls)
        = Some (raised, st', total_urls')"
      by (simp add: write_urls_appended)
    from Cons.IH[OF rec] obtain k ns walk st1 where
      k: "k \<le> length ss" and
      w: "fetch_shows e (take k ss) ns (appended episode_urls st2) = Some (walk, st1)" and
      o: "outfile st' = outfile (appended episode_urls st2)
            @ lines_of (written_urls e (take k ss) walk)" and
      t: "total_urls' = total_urls + length episode_urls
            + length (written_urls e (take k ss) walk)" and
      rn: "ran (trace st') = ran (trace (appended episode_urls st2))" and
      n: "raised = None \<longrightarrow> k = length ss \<and> st' = st1" and
      x: "\<forall>x. raised = Some x \<longrightarrow> x = KeyboardInterrupt \<and> k < length ss \<and>
            scrape_show_episodes e (ss ! k) st1 = Some (Inl x, st')"
      by blast
    from sh Inr scrape_show_episodes_complete[of e s st episode_urls st2]
    obtain m pages st3 r where
      f: "fetch_season_pages e (url s) m 1
            (emit (Print (''--- Scraping: '' @ title s @ '' ---'')) st) = Some (pages, st3)" and
      g: "blocking_get e (season_url (url s) (Suc m)) False st3 = Some (Inr r, st2)" and
      z: "episode_hrefs r = []" and
      ep: "episode_urls = episode_urls_of e s pages"
      by blast
    from f g z w have w': "fetch_shows e (take (Suc k) (s # ss)) (m # ns) st
        = Some (pages # walk, st1)"
      unfolding ep by simp
    from fr Inr have o2: "outfile st2 = outfile st" and r2: "ran (trace st2) = ran (trace st)"
      by simp_all
    have o': "outfile st' = outfile st
        @ lines_of (written_urls e (take (Suc k) (s # ss)) (pages # walk))"
      using o o2 unfolding ep by (simp add: outfile_appended lines_of_append)
    have t': "total_urls' = total_urls
        + length (written_urls e (take (Suc k) (s # ss)) (pages # walk))"
      using t unfolding ep by simp
    have rn': "ran (trace st') = ran (trace st)"
      using rn r2 by (simp add: trace_appended)
    from k w' o' t' rn' n x show ?thesis
      by - (rule exI[of _ "Suc k"], rule exI[of _ "m # ns"], rule exI[of _ "pages # walk"],
            rule exI[of _ st1], simp)
  qed
qed

lemma finish_frame:
  "outfile (snd (finish e d total_urls st)) = outfile st \<and>
   requested (trace (snd (finish e d total_urls st))) = requested (trace st) \<and>
   (fst (finish e d total_urls st) = ExitStatus 0 \<or>
      (\<exists>m. fst (finish e d total_urls st) = Uncaught (OSError m) \<and> 0 < total_urls)) \<and>
   (total_urls = 0 \<longrightarrow> ran (trace (snd (finish e d total_urls st))) = ran (trace st))"
proof -
  let ?st1 = "emit (Print (''\<newline>Scraping Finished. Found '' @ show_nat total_urls @ '' links.'')) st"
  show ?thesis
  proof (cases "0 < total_urls")
    case False
    then show ?thesis
      by (simp add: finish_def Let_def outfile_emit trace_emit requested_append ran_append)
  next
    case True
    obtain res st2 where r: "run_ytdlp e d ?st1 = (res, st2)" by (cases "run_ytdlp e d ?st1")
    from run_ytdlp_outfile[of e d ?st1] r have o: "outfile st2 = outfile st"
      by (simp add: outfile_emit)
    from run_ytdlp_requested[of e d ?st1] r have q: "requested (trace st2) = requested (trace st)"
      by (simp add: trace_emit requested_append)
    show ?thesis
    proof (cases res)
      case (Inr u)
      with True r o q show ?thesis by (simp add: finish_def Let_def)
    next
      case (Inl x)
      with r have "fst (run_ytdlp e d ?st1) = Inl x" by simp
      from run_ytdlp_raises[OF this] obtain m where "x = OSError m" by blast
      with Inl True r o q show ?thesis by (simp add: finish_def Let_def)
    qed
  qed
qed

subsection \<open>C6: the exit status\<close>

lemma before_index_walk_frame:
  assumes "path_exists e COOKIES_FILE (clock st)"
  shows "outfile (before_index_walk e d st) = outfile st \<and>
    ran (trace (before_index_walk e d st)) = ran (trace st) \<and>
    requested (trace (before_index_walk e d st)) = requested (trace st)"
  using check_prerequisites_present[OF assms]
  by (simp add: before_index_walk_def outfile_emit trace_emit ran_append requested_append)

lemma before_episode_walk_frame:
  "outfile (before_episode_walk st) = [] \<and>
   ran (trace (before_episode_walk st)) = ran (trace st) \<and>
   requested (trace (before_episode_walk st)) = requested (trace st)"
  by (simp add: before_episode_walk_def emit_def ran_append requested_append)

lemma main_early:
  assumes "parse_args e = Inr d" and "path_exists e COOKIES_FILE (clock st)"
    and "scrape_all_series e (before_index_walk e d st) = Some (Inl x, st3)"
  shows "main e st = Some (Uncaught KeyboardInterrupt, st3) \<and> outfile st3 = outfile st \<and>
    ran (trace st3) = ran (trace st)"
proof -
  from scrape_all_series_frame[OF assms(3)] have x: "x = KeyboardInterrupt" and
    f: "outfile st3 = outfile (before_index_walk e d st)"
       "ran (trace st3) = ran (trace (before_index_walk e d st))"
    by simp_all
  from assms(3) x have "main e st = Some (Uncaught KeyboardInterrupt, st3)"
    by (simp add: main_unfold[OF assms(1,2)])
  with f before_index_walk_frame[OF assms(2), of d] show ?thesis by simp
qed

lemma main_late:
  assumes "parse_args e = Inr d" and "path_exists e COOKIES_FILE (clock st)"
    and "scrape_all_series e (before_index_walk e d st) = Some (Inr series_list, st3)"
    and "scrape_and_write e series_list (before_episode_walk st3, 0) = Some (raised, st5, total_urls)"
  shows "\<exists>st6. main e st = Some (finish e (output_dir_of e d) total_urls st6) \<and>
    outfile st6 = outfile st5 \<and> ran (trace st6) = ran (trace st) \<and>
    (raised = None \<or> raised = Some KeyboardInterrupt) \<and>
    (raised = None \<longrightarrow> st6 = st5)"
proof -
  from scrape_and_write_complete[OF assms(4)] have
    rn: "ran (trace st5) = ran (trace (before_episode_walk st3))" and
    x: "\<forall>x. raised = Some x \<longrightarrow> x = KeyboardInterrupt"
    by blast+
  from scrape_all_series_frame[OF assms(3)] have
    "ran (trace st3) = ran (trace (before_index_walk e d st))" by simp
  with rn before_index_walk_frame[OF assms(2), of d] before_episode_walk_frame[of st3]
  have r5: "ran (trace st5) = ran (trace st)" by simp
  show ?thesis
  proof (cases raised)
    case None
    with assms(3,4) have "main e st = Some (finish e (output_dir_of e d) total_urls st5)"
      by (simp add: main_unfold[OF assms(1,2)])
    with None r5 show ?thesis by - (rule exI[of _ st5], simp)
  next
    case (Some y)
    with x have y: "y = KeyboardInterrupt" by simp
    let ?st6 = "emit (Print ''\<newline>Scraping interrupted! Proceeding to download with whatever we found...'') st5"
    from Some y assms(3,4) have "main e st = Some (finish e (output_dir_of e d) total_urls ?st6)"
      by (simp add: main_unfold[OF assms(1,2)])
    with Some y r5 show ?thesis
      by - (rule exI[of _ ?st6], simp add: outfile_emit trace_emit ran_append)
  qed
qed

lemma main_returned:
  assumes "parse_args e = Inr d" and "path_exists e COOKIES_FILE (clock st)"
    and "main e st = Some (en, st')"
  shows "(\<exists>x. scrape_all_series e (before_index_walk e d st) = Some (Inl x, st') \<and>
            en = Uncaught KeyboardInterrupt)
    \<or> (\<exists>series_list st3 raised st5 total_urls.
          scrape_all_series e (before_index_walk e d st) = Some (Inr series_list, st3) \<and>
          scrape_and_write e series_list (before_episode_walk st3, 0)
            = Some (raised, st5, total_urls))"
proof -
  from assms(3) obtain res st3 where
    s: "scrape_all_series e (before_index_walk e d st) = Some (res, st3)"
    unfolding main_unfold[OF assms(1,2)] by (auto split: option.splits)
  show ?thesis
  proof (cases res)
    case (Inl x)
    from main_early[OF assms(1,2) s[unfolded Inl]] assms(3) s Inl show ?thesis by simp
  next
    case (Inr series_list)
    from assms(3) s Inr obtain raised st5 total_urls where
      "scrape_and_write e series_list (before_episode_walk st3, 0) = Some (raised, st5, total_urls)"
      unfolding main_unfold[OF assms(1,2)] by (auto split: option.splits)
    with s Inr show ?thesis by blast
  qed
qed




subsection \<open>C8: the output file across runs\<close>

lemma main_walk:
  assumes p: "parse_args e = Inr d" and c: "path_exists e COOKIES_FILE (clock st)"
    and s: "scrape_all_series e (before_index_walk e d st) = Some (Inr series_list, st3)"
    and w: "fetch_shows e series_list ns (before_episode_walk st3) = Some (walk, st5)"
  shows "main e st
      = Some (finish e (output_dir_of e d) (length (written_urls e series_list walk)) st5) \<and>
    outfile st3 = outfile st \<and>
    outfile (snd (finish e (output_dir_of e d) (length (written_urls e series_list walk)) st5))
      = lines_of (written_urls e series_list walk)"
proof -
  from scrape_and_write_walk[OF w, of 0] have
    sw: "scrape_and_write e series_list (before_episode_walk st3, 0)
      = Some (None, st5, length (written_urls e series_list walk))" and
    o5: "outfile st5 = lines_of (written_urls e series_list walk)"
    by (simp_all add: before_episode_walk_frame)
  from main_late[OF p c s sw] have
    m: "main e st
      = Some (finish e (output_dir_of e d) (length (written_urls e series_list walk)) st5)"
    by auto
  from scrape_all_series_frame[OF s] before_index_walk_frame[OF c, of d]
  have o3: "outfile st3 = outfile st" by simp
  from finish_frame[of e "output_dir_of e d" "length (written_urls e series_list walk)" st5] o5
  have "outfile (snd (finish e (output_dir_of e d) (length (written_urls e series_list walk)) st5))
      = lines_of (written_urls e series_list walk)"
    by simp
  with m o3 show ?thesis by (intro conjI)
qed

lemma main_file:
  assumes "main e st = Some (en, st')"
  shows "(outfile st' = outfile st \<and> ran (trace st') = ran (trace st))
    \<or> (\<exists>d series_list st3 k ns walk st5.
          parse_args e = Inr d \<and>
          scrape_all_series e (before_index_walk e d st) = Some (Inr series_list, st3) \<and>
          k \<le> length series_list \<and>
          fetch_shows e (take k series_list) ns (before_episode_walk st3) = Some (walk, st5) \<and>
          outfile st' = lines_of (written_urls e (take k series_list) walk))"
proof (cases "parse_args e")
  case (Inl x)
  with assms show ?thesis by (simp add: main_def)
next
  case (Inr d)
  show ?thesis
  proof (cases "path_exists e COOKIES_FILE (clock st)")
    case False
    note c = check_prerequisites_missing[OF False]
    obtain x st1 where p: "check_prerequisites e st = (x, st1)"
      by (cases "check_prerequisites e st")
    with c have "x = Inl (SystemExit 1)" "outfile st1 = outfile st"
      "ran (trace st1) = ran (trace st)"
      by simp_all
    with p Inr assms show ?thesis by (simp add: main_def)
  next
    case True
    from main_returned[OF Inr True assms] show ?thesis
    proof
      assume "\<exists>x. scrape_all_series e (before_index_walk e d st) = Some (Inl x, st') \<and>
            en = Uncaught KeyboardInterrupt"
      then obtain x where
        "scrape_all_series e (before_index_walk e d st) = Some (Inl x, st')" by blast
      from main_early[OF Inr True this] show ?thesis by simp
    next
      assume "\<exists>series_list st3 raised st5 total_urls.
          scrape_all_series e (before_index_walk e d st) = Some (Inr series_list, st3) \<and>
          scrape_and_write e series_list (before_episode_walk st3, 0)
            = Some (raised, st5, total_urls)"
      then obtain series_list st3 raised st5 total_urls where
        s: "scrape_all_series e (before_index_walk e d st) = Some (Inr series_list, st3)" and
        w: "scrape_and_write e series_list (before_episode_walk st3, 0)
              = Some (raised, st5, total_urls)"
        by blast
      from main_late[OF Inr True s w] obtain st6 where
        m: "main e st = Some (finish e (output_dir_of e d) total_urls st6)" and
        o6: "outfile st6 = outfile st5"
        by blast
      from m assms have "finish e (output_dir_of e d) total_urls st6 = (en, st')" by simp
      then have "st' = snd (finish e (output_dir_of e d) total_urls st6)" by simp
      with finish_frame[of e "output_dir_of e d" total_urls st6] o6
      have o': "outfile st' = outfile st5" by simp
      from scrape_and_write_complete[OF w] obtain k ns walk st1 where
        k: "k \<le> length series_list" and
        f: "fetch_shows e (take k series_list) ns (before_episode_walk st3) = Some (walk, st1)" and
        o: "outfile st5 = outfile (before_episode_walk st3)
              @ lines_of (written_urls e (take k series_list) walk)"
        by blast
      from o o' have "outfile st' = lines_of (written_urls e (take k series_list) walk)"
        by (simp add: before_episode_walk_frame)
      with Inr s k f have "\<exists>d series_list st3 k ns walk st5.
          parse_args e = Inr d \<and>
          scrape_all_series e (before_index_walk e d st) = Some (Inr series_list, st3) \<and>
          k \<le> length series_list \<and>
          fetch_shows e (take k series_list) ns (before_episode_walk st3) = Some (walk, st5) \<and>
          outfile st' = lines_of (written_urls e (take k series_list) walk)"
        by - (rule exI[of _ d], rule exI[of _ series_list], rule exI[of _ st3],
              rule exI[of _ k], rule exI[of _ ns], rule exI[of _ walk], rule exI[of _ st1], simp)
      then show ?thesis by (rule disjI2)
    qed
  qed
qed

text \<open>
  Claim C8, as the specification states it, fails: the output file is not truncated at
  the start of a run but only when the index walk has returned. A run that ends before
  (here: one without the cookie file, and one that the user interrupts during the index
  walk) leaves the content of the previous run in the file.
\<close>

theorem previous_content_survives_early_end:
  "outfile st0 = ''old''
   \<and> ending_and_file (main no_cookies_env st0) = Some (ExitStatus 1, ''old'')
   \<and> path_exists interrupted_index_env COOKIES_FILE (clock st0)
   \<and> ending_and_file (main interrupted_index_env st0)
       = Some (Uncaught KeyboardInterrupt, ''old'')"
proof -
  have a: "outfile st0 = ''old''" by (simp add: st0_def)
  have b: "ending_and_file (main no_cookies_env st0) = Some (ExitStatus 1, ''old'')"
    by code_simp
  have c: "path_exists interrupted_index_env COOKIES_FILE (clock st0)" by code_simp
  have d: "ending_and_file (main interrupted_index_env st0)
       = Some (Uncaught KeyboardInterrupt, ''old'')"
    by code_simp
  from a b c d show ?thesis by (intro conjI)
qed

text \<open>
  Claim C8, amended. The output file is truncated when the index walk has returned,
  before any episode URL is written, and from then on it is only appended to. (1) A run
  that ends has either left the file and the downloader untouched, or its file holds
  exactly the lines of the episode URLs this run found, for the shows walked before it
  ended or was interrupted. (2) When the index walk returns a list of series and the
  episode walk over them completes, the index walk has left the file as it was, the file
  is empty when the episode walk begins, and the run ends with a file that holds exactly
  the lines of this run, whatever it held before. (3) Writing a show's URLs appends their
  lines to the file.
\<close>

theorem output_file_rewritten_after_index_walk:
  "(\<forall>en st'. main e st = Some (en, st') \<longrightarrow>
      (outfile st' = outfile st \<and> ran (trace st') = ran (trace st))
      \<or> (\<exists>d series_list st3 k ns walk st5.
            parse_args e = Inr d \<and>
            scrape_all_series e (before_index_walk e d st) = Some (Inr series_list, st3) \<and>
            k \<le> length series_list \<and>
            fetch_shows e (take k series_list) ns (before_episode_walk st3) = Some (walk, st5) \<and>
            outfile st' = lines_of (written_urls e (take k series_list) walk)))
   \<and> (\<forall>d series_list st3 ns walk st5.
        parse_args e = Inr d \<and> path_exists e COOKIES_FILE (clock st) \<and>
        scrape_all_series e (before_index_walk e d st) = Some (Inr series_list, st3) \<and>
        fetch_shows e series_list ns (before_episode_walk st3) = Some (walk, st5) \<longrightarrow>
        outfile st3 = outfile st \<and> outfile (before_episode_walk st3) = [] \<and>
        (\<exists>en st'. main e st = Some (en, st') \<and>
           outfile st' = lines_of (written_urls e series_list walk)))
   \<and> (\<forall>us st1 total_urls.
        outfile (fst (write_urls us (st1, total_urls))) = outfile st1 @ lines_of us)"
proof (intro conjI allI impI)
  fix en st' assume "main e st = Some (en, st')"
  then show "(outfile st' = outfile st \<and> ran (trace st') = ran (trace st))
      \<or> (\<exists>d series_list st3 k ns walk st5.
            parse_args e = Inr d \<and>
            scrape_all_series e (before_index_walk e d st) = Some (Inr series_list, st3) \<and>
            k \<le> length series_list \<and>
            fetch_shows e (take k series_list) ns (before_episode_walk st3) = Some (walk, st5) \<and>
            outfile st' = lines_of (written_urls e (take k series_list) walk))"
    by (rule main_file)
next
  fix us st1 total_urls
  show "outfile (fst (write_urls us (st1, total_urls))) = outfile st1 @ lines_of us"
    by (simp add: write_urls_appended outfile_appended)
next
  fix d series_list st3 ns walk st5
  assume h: "parse_args e = Inr d \<and> path_exists e COOKIES_FILE (clock st) \<and>
        scrape_all_series e (before_index_walk e d st) = Some (Inr series_list, st3) \<and>
        fetch_shows e series_list ns (before_episode_walk st3) = Some (walk, st5)"
  then have p: "parse_args e = Inr d" and c: "path_exists e COOKIES_FILE (clock st)" and
    s: "scrape_all_series e (before_index_walk e d st) = Some (Inr series_list, st3)" and
    w: "fetch_shows e series_list ns (before_episode_walk st3) = Some (walk, st5)"
    by simp_all
  note m = main_walk[OF p c s w]
  let ?F = "finish e (output_dir_of e d) (length (written_urls e series_list walk)) st5"
  from m show "outfile st3 = outfile st" by simp
  show "outfile (before_episode_walk st3) = []" by (simp add: before_episode_walk_frame)
  from m have "main e st = Some (fst ?F, snd ?F) \<and>
      outfile (snd ?F) = lines_of (written_urls e series_list walk)"
    by simp
  then show "\<exists>en st'. main e st = Some (en, st') \<and>
           outfile st' = lines_of (written_urls e series_list walk)"
    by - (rule exI[of _ "fst ?F"], rule exI[of _ "snd ?F"])
qed

text \<open>
  Witness for the amended C8: the run over the small catalogue starts with a file that
  holds \<open>old\<close> and ends with a file that holds the five episode URLs, one per line.
\<close>

theorem output_file_rewritten_witness:
  "outfile st0 = ''old''
   \<and> (\<exists>en st'. main site_env st0 = Some (en, st') \<and> outfile st' = lines_of site_urls)"
proof -
  let ?S = "scrape_all_series site_env (before_index_walk site_env ''Dropout'' st0)"
  let ?W = "fetch_shows site_env [show_a, show_b, show_c] [1, 2, 0]
              (before_episode_walk (snd (the ?S)))"
  have p: "parse_args site_env = Inr ''Dropout''" by code_simp
  have c: "path_exists site_env COOKIES_FILE (clock st0)" by code_simp
  have s: "?S = Some (Inr [show_a, show_b, show_c], snd (the ?S))" by code_simp
  have w: "?W = Some (site_walk, snd (the ?W))" by code_simp
  have u: "written_urls site_env [show_a, show_b, show_c] site_walk = site_urls" by code_simp
  from p c s w have h: "parse_args site_env = Inr ''Dropout'' \<and>
      path_exists site_env COOKIES_FILE (clock st0) \<and>
      ?S = Some (Inr [show_a, show_b, show_c], snd (the ?S)) \<and>
      ?W = Some (site_walk, snd (the ?W))"
    by (intro conjI)
  from output_file_rewritten_after_index_walk[of site_env st0, THEN conjunct2, THEN conjunct1,
      rule_format, OF h]
  have "\<exists>en st'. main site_env st0 = Some (en, st') \<and>
      outfile st' = lines_of (written_urls site_env [show_a, show_b, show_c] site_walk)"
    by blast
  then have "\<exists>en st'. main site_env st0 = Some (en, st') \<and> outfile st' = lines_of site_urls"
    unfolding u .
  moreover have "outfile st0 = ''old''" by (simp add: st0_def)
  ultimately show ?thesis by (intro conjI)
qed

subsection \<open>C9: the lines of the output file\<close>










end
